theory Spec2Isabelle
  imports Main "HOL-Library.AList"
begin

section \<open>Strings and character classes\<close>

text \<open>
  A JavaScript string is modelled as a \<^typ>\<open>string\<close>: a list of code units, each below 256.
  The character classes are those of the three regular expressions of
  \<^verbatim>\<open>camelToKebabCase\<close>, none of which carries the \<^verbatim>\<open>i\<close> or \<^verbatim>\<open>u\<close> flag:
  \<^verbatim>\<open>\s\<close> is tab, line feed, vertical tab, form feed, carriage return, space and the
  no-break space (the other members of the class lie above 255), \<^verbatim>\<open>\d\<close> is
  \<^verbatim>\<open>[0-9]\<close>, and the letter classes are the ASCII ranges written in the source.
\<close>

definition isWhitespace :: "char \<Rightarrow> bool" where
  "isWhitespace c = ((of_char c :: nat) \<in> {9, 10, 11, 12, 13, 32, 160})"

definition isDigit :: "char \<Rightarrow> bool" where
  "isDigit c = (48 \<le> (of_char c :: nat) \<and> (of_char c :: nat) \<le> 57)"

definition isUpper :: "char \<Rightarrow> bool" where
  "isUpper c = (65 \<le> (of_char c :: nat) \<and> (of_char c :: nat) \<le> 90)"

definition isLower :: "char \<Rightarrow> bool" where
  "isLower c = (97 \<le> (of_char c :: nat) \<and> (of_char c :: nat) \<le> 122)"

text \<open>\<^verbatim>\<open>[a-zA-Z]\<close>, the lookahead of the second pass.\<close>

definition isLetter :: "char \<Rightarrow> bool" where
  "isLetter c = (isLower c \<or> isUpper c)"

text \<open>\<^verbatim>\<open>[a-z0-9]\<close>, the first group of the third pass.\<close>

definition isLowerOrDigit :: "char \<Rightarrow> bool" where
  "isLowerOrDigit c = (isLower c \<or> isDigit c)"

text \<open>
  \<^verbatim>\<open>toLowerCase\<close> on one code unit below 256: the ASCII capitals and the Latin-1
  capitals (192 to 222 without the multiplication sign 215) move up by 32.
\<close>

definition toLowerChar :: "char \<Rightarrow> char" where
  "toLowerChar c =
     (let n = (of_char c :: nat)
      in if (65 \<le> n \<and> n \<le> 90) \<or> (192 \<le> n \<and> n \<le> 222 \<and> n \<noteq> 215)
         then char_of (n + 32) else c)"

definition toLowerCase :: "string \<Rightarrow> string" where
  "toLowerCase s = map toLowerChar s"

section \<open>camelToKebabCase\<close>

text \<open>
  Each \<^verbatim>\<open>replace\<close> with a global regular expression scans the string from the left:
  where the expression matches, the replacement is emitted and the scan goes on behind the
  match; where it does not, the code unit is copied and the scan moves one place on.

  First pass, \<^verbatim>\<open>.replace(/\s+/g, '-')\<close>: a maximal run of whitespace becomes one hyphen.
\<close>

function replaceWhitespace :: "string \<Rightarrow> string" where
  "replaceWhitespace [] = []"
| "replaceWhitespace (c # cs) =
     (if isWhitespace c then CHR ''-'' # replaceWhitespace (dropWhile isWhitespace cs)
      else c # replaceWhitespace cs)"
  by pat_completeness auto
termination
  by (relation "measure length") (auto simp: less_Suc_eq_le length_dropWhile_le)

text \<open>
  Second pass, \<^verbatim>\<open>.replace(/(\d+)(?=[a-zA-Z])/g, '-$1')\<close>. At a digit the greedy group takes
  the whole run of digits; the lookahead then wants a letter behind the run. Giving digits
  back cannot help, since the code unit behind a shorter group is a digit. So the expression
  matches at a position exactly when a digit stands there and the run of digits that starts
  there is followed by a letter; the match is the run, and it is replaced by a hyphen and the
  run. The expression has no anchor and no lookbehind: position 0 is treated like any other.
\<close>

function hyphenBeforeDigits :: "string \<Rightarrow> string" where
  "hyphenBeforeDigits [] = []"
| "hyphenBeforeDigits (c # cs) =
     (if isDigit c then
        (case dropWhile isDigit cs of
           [] \<Rightarrow> c # hyphenBeforeDigits cs
         | r # rest \<Rightarrow>
             if isLetter r
             then CHR ''-'' # c # takeWhile isDigit cs @ hyphenBeforeDigits (r # rest)
             else c # hyphenBeforeDigits cs)
      else c # hyphenBeforeDigits cs)"
  by pat_completeness auto
termination
proof (relation "measure length")
  show "wf (measure length)" by simp
next
  fix c :: char and cs :: string
  show "(cs, c # cs) \<in> measure length" by simp
next
  fix c :: char and cs :: string and r :: char and rest :: string
  assume "dropWhile isDigit cs = r # rest"
  then have "length (r # rest) \<le> length cs"
    using length_dropWhile_le [of isDigit cs] by simp
  then show "(r # rest, c # cs) \<in> measure length" by simp
qed simp_all

text \<open>
  Third pass, \<^verbatim>\<open>.replace(/([a-z0-9])([A-Z])/g, '$1-$2')\<close>: a lower-case letter or digit
  followed by a capital gets a hyphen between the two, and the scan goes on behind the
  capital.
\<close>

fun hyphenBeforeUpper :: "string \<Rightarrow> string" where
  "hyphenBeforeUpper (a # b # cs) =
     (if isLowerOrDigit a \<and> isUpper b then a # CHR ''-'' # b # hyphenBeforeUpper cs
      else a # hyphenBeforeUpper (b # cs))"
| "hyphenBeforeUpper cs = cs"

definition camelToKebabCase :: "string \<Rightarrow> string" where
  "camelToKebabCase str =
     toLowerCase (hyphenBeforeUpper (hyphenBeforeDigits (replaceWhitespace str)))"

section \<open>Values and objects\<close>

text \<open>
  The values a caller can hand to the two functions: strings, numbers, booleans,
  \<^verbatim>\<open>null\<close>, arrays and plain objects. An object is the list of its own enumerable
  properties in the order in which \<^verbatim>\<open>for (const key in o)\<close> visits them; a JavaScript
  object has each key once. The objects handed in are plain data, as \<^verbatim>\<open>JSON.parse\<close> or
  an object literal makes them: nothing enumerable is inherited. A key is any string; an
  object read by \<^verbatim>\<open>JSON.parse\<close> can have an own property named \<^verbatim>\<open>__proto__\<close>. A value
  of this type records the own properties of an object and not its prototype. The payload
  of a number is never inspected by the code.
\<close>

datatype jsval =
    Str string
  | Num int
  | Bool bool
  | Null
  | Arr "jsval list"
  | Obj "(string \<times> jsval) list"

text \<open>The decimal index strings under which \<^verbatim>\<open>for ... in\<close> visits an array.\<close>

fun showNat :: "nat \<Rightarrow> string" where
  "showNat n =
     (if n < 10 then [char_of (48 + n)] else showNat (n div 10) @ [char_of (48 + n mod 10)])"

declare showNat.simps [simp del]

text \<open>
  The pairs \<^verbatim>\<open>(key, v[key])\<close> that \<^verbatim>\<open>for (const key in v)\<close> visits: the properties of an
  object, the indices of an array or a string, and nothing for a number, a boolean or
  \<^verbatim>\<open>null\<close> (the loop over them runs zero times and does not throw).
\<close>

definition forIn :: "jsval \<Rightarrow> (string \<times> jsval) list" where
  "forIn v =
     (case v of
        Obj kvs \<Rightarrow> kvs
      | Arr xs \<Rightarrow> zip (map showNat [0..<length xs]) xs
      | Str s \<Rightarrow> zip (map showNat [0..<length s]) (map (\<lambda>c. Str [c]) s)
      | _ \<Rightarrow> [])"

text \<open>\<^verbatim>\<open>typeof v === 'string'\<close>, with the string.\<close>

definition asString :: "jsval \<Rightarrow> string option" where
  "asString v = (case v of Str s \<Rightarrow> Some s | _ \<Rightarrow> None)"

text \<open>
  \<^verbatim>\<open>typeof v === 'object' && v !== null && !(v instanceof Array)\<close>, with the properties.
\<close>

definition asPlainObject :: "jsval \<Rightarrow> (string \<times> jsval) list option" where
  "asPlainObject v = (case v of Obj kvs \<Rightarrow> Some kvs | _ \<Rightarrow> None)"

text \<open>
  The assignment \<^verbatim>\<open>o[key] = v\<close> on the own properties of an object that the two
  functions have made with \<^verbatim>\<open>{}\<close>. For every key but one it is \<^const>\<open>AList.update\<close>:
  an existing key keeps its place and takes the new value, a new key goes to the end. The
  key \<^verbatim>\<open>__proto__\<close> is the accessor that such an object inherits: the assignment calls
  its setter, which makes an object the prototype and ignores a string, and in neither case
  does the object get an own property.
\<close>

definition assign :: "string \<Rightarrow> 'v \<Rightarrow> (string \<times> 'v) list \<Rightarrow> (string \<times> 'v) list" where
  "assign key v props = (if key = ''__proto__'' then props else AList.update key v props)"

text \<open>
  \<^verbatim>\<open>x || d\<close> on an optional string: \<^verbatim>\<open>undefined\<close> and the empty string are falsy.
\<close>

definition strOr :: "string option \<Rightarrow> string \<Rightarrow> string" where
  "strOr x d = (case x of None \<Rightarrow> d | Some s \<Rightarrow> if s = [] then d else s)"

text \<open>\<^verbatim>\<open>x || false\<close> on an optional boolean.\<close>

definition boolOr :: "bool option \<Rightarrow> bool \<Rightarrow> bool" where
  "boolOr x d = (case x of None \<Rightarrow> d | Some b \<Rightarrow> if b then True else d)"

text \<open>\<^verbatim>\<open>x || []\<close> on an optional array: every array is truthy.\<close>

definition listOr :: "'a list option \<Rightarrow> 'a list \<Rightarrow> 'a list" where
  "listOr x d = (case x of None \<Rightarrow> d | Some xs \<Rightarrow> xs)"

section \<open>toCSSVariables\<close>

record Options =
  prefix :: "string option"
  includeFallback :: "bool option"
  rootKeys :: "string list option"

record Output =
  declarationMap :: "(string \<times> string) list"
  variables :: jsval
  raw :: jsval

text \<open>
  The field \<^verbatim>\<open>declaration\<close> of the result is named \<open>declarationMap\<close> here, the
  source's name being a keyword of Isabelle.

  The constant \<^verbatim>\<open>fullKey\<close> of the loop body.
\<close>

definition fullKey :: "string list \<Rightarrow> string \<Rightarrow> string \<Rightarrow> string" where
  "fullKey rks currentPrefix key =
     (if key \<in> set rks then currentPrefix
      else currentPrefix @ (if currentPrefix \<noteq> [] then ''-'' else []) @ camelToKebabCase key)"

text \<open>The prefix handed to the recursive call: \<^verbatim>\<open>currentPrefix ? fullKey : kebabKey\<close>.\<close>

definition childPrefix :: "string list \<Rightarrow> string \<Rightarrow> string \<Rightarrow> string" where
  "childPrefix rks currentPrefix key =
     (if currentPrefix \<noteq> [] then fullKey rks currentPrefix key else camelToKebabCase key)"

text \<open>The template literal assigned to a leaf of \<^verbatim>\<open>variables\<close>.\<close>

definition varRef :: "bool \<Rightarrow> string \<Rightarrow> string \<Rightarrow> string" where
  "varRef fallback name v = ''var(--'' @ name @ (if fallback then '', '' @ v else []) @ '')''"

text \<open>
  The inner function \<^verbatim>\<open>processObject\<close> of \<^verbatim>\<open>toCSSVariables\<close>, with the closure
  variables \<^verbatim>\<open>includeFallback\<close> and \<^verbatim>\<open>rootKeys\<close> as its first two arguments. The
  loop over the keys of \<^verbatim>\<open>subObj\<close> is the recursion over its property list. The state
  is the pair of the closure variable \<^verbatim>\<open>declaration\<close> and the properties of
  \<^verbatim>\<open>parentObj\<close>. For a value that is not a string the source stores a fresh \<^verbatim>\<open>{}\<close>
  under the key and fills it in the recursive call; nothing else refers to that object, so
  the model runs the call on the empty property list and stores the filled object. Under
  the key \<^verbatim>\<open>__proto__\<close> the fresh object becomes the prototype of \<^verbatim>\<open>parentObj\<close>, and
  \<^verbatim>\<open>parentObj[key]\<close> reads it back, so the recursive call runs and fills it all the same,
  while \<^verbatim>\<open>parentObj\<close> gets no own property. The section on the store below runs the loop
  with the assignments in the order of the source and shows that it computes what this
  function computes.

  The measure of the recursion: the sizes of the values of a property list.
\<close>

definition weight :: "(string \<times> jsval) list \<Rightarrow> nat" where
  "weight kvs = sum_list (map (\<lambda>kv. size (snd kv)) kvs) + length kvs"

lemma weight_Cons: "weight ((k, v) # kvs) = Suc (size v + weight kvs)"
  by (simp add: weight_def)

lemma weight_zip_le:
  "weight (zip ks vs) \<le> sum_list (map size vs) + length vs"
proof (induction vs arbitrary: ks)
  case Nil
  show ?case by (simp add: weight_def)
next
  case (Cons v vs)
  show ?case
  proof (cases ks)
    case Nil
    then show ?thesis by (simp add: weight_def)
  next
    case (Cons k ks')
    with Cons.IH [of ks'] show ?thesis by (simp add: weight_Cons)
  qed
qed

lemma weight_forIn: "asString v = None \<Longrightarrow> weight (forIn v) \<le> size v"
proof (cases v)
  case (Arr xs)
  have "weight (zip (map showNat [0..<length xs]) xs) \<le> sum_list (map size xs) + length xs"
    by (rule weight_zip_le)
  also have "\<dots> \<le> size (Arr xs)"
    by (simp add: size_list_conv_sum_list)
  finally show ?thesis using Arr by (simp add: forIn_def)
next
  case (Obj kvs)
  have "weight kvs \<le> size_list (size_prod (\<lambda>_. 0) size) kvs"
    by (induction kvs) (auto simp: weight_def)
  then show ?thesis using Obj by (simp add: forIn_def)
qed (simp_all add: forIn_def asString_def weight_def)

lemma weight_forIn_less: "asString v = None \<Longrightarrow> weight (forIn v) < Suc (size v + n)"
  using weight_forIn [of v] by simp

function toCSSVariables_processObject ::
  "bool \<Rightarrow> string list \<Rightarrow> (string \<times> jsval) list \<Rightarrow> string \<Rightarrow>
   (string \<times> string) list \<times> (string \<times> jsval) list \<Rightarrow>
   (string \<times> string) list \<times> (string \<times> jsval) list"
where
  "toCSSVariables_processObject fallback rks [] currentPrefix st = st"
| "toCSSVariables_processObject fallback rks ((key, v) # rest) currentPrefix (decl, parentObj) =
     (case asString v of
        Some s \<Rightarrow>
          toCSSVariables_processObject fallback rks rest currentPrefix
            (assign (''--'' @ fullKey rks currentPrefix key) s decl,
             assign key (Str (varRef fallback (fullKey rks currentPrefix key) s)) parentObj)
      | None \<Rightarrow>
          (case toCSSVariables_processObject fallback rks (forIn v)
                  (childPrefix rks currentPrefix key) (decl, [])
           of (decl', child) \<Rightarrow>
             toCSSVariables_processObject fallback rks rest currentPrefix
               (decl', assign key (Obj child) parentObj)))"
  by pat_completeness auto
termination
  by (relation "measure (\<lambda>(fallback, rks, kvs, currentPrefix, st). weight kvs)")
     (auto simp: weight_Cons intro: weight_forIn_less)

text \<open>
  The three constants at the head of \<^verbatim>\<open>toCSSVariables\<close>:
  \<^verbatim>\<open>options?.prefix || ''\<close>, \<^verbatim>\<open>options?.includeFallback || false\<close> and
  \<^verbatim>\<open>options?.rootKeys || []\<close>.
\<close>

definition prefixOf :: "Options option \<Rightarrow> string" where
  "prefixOf options = strOr (Option.bind options Options.prefix) []"

definition includeFallbackOf :: "Options option \<Rightarrow> bool" where
  "includeFallbackOf options = boolOr (Option.bind options includeFallback) False"

definition rootKeysOf :: "Options option \<Rightarrow> string list" where
  "rootKeysOf options = listOr (Option.bind options Options.rootKeys) []"

definition toCSSVariables :: "jsval \<Rightarrow> Options option \<Rightarrow> Output" where
  "toCSSVariables obj options =
     (case toCSSVariables_processObject (includeFallbackOf options) (rootKeysOf options)
             (forIn obj) (prefixOf options) ([], [])
      of (decl, vars) \<Rightarrow> \<lparr>declarationMap = decl, variables = Obj vars, raw = obj\<rparr>)"

section \<open>flattenVariables\<close>

record FlattenOptions =
  separator :: "string option"
  prefix :: "string option"
  rootKeys :: "string list option"

text \<open>The constant \<^verbatim>\<open>fullKey\<close> of the loop body of the flattener.\<close>

definition flatKey :: "string \<Rightarrow> string list \<Rightarrow> string \<Rightarrow> string \<Rightarrow> string" where
  "flatKey sep rks currentPrefix key =
     (if currentPrefix \<noteq> []
      then (if key \<in> set rks then currentPrefix else currentPrefix @ sep @ key)
      else key)"

text \<open>
  The inner function \<^verbatim>\<open>processObject\<close> of \<^verbatim>\<open>flattenVariables\<close>, with the closure
  variables \<^verbatim>\<open>separator\<close>, \<^verbatim>\<open>prefix\<close> and \<^verbatim>\<open>rootKeys\<close> as its first three arguments
  and the closure variable \<^verbatim>\<open>flattened\<close> as its state. A value that is neither a string
  nor a plain object takes neither branch of the source. The list \<^verbatim>\<open>flattened\<close> holds
  the entries in the order in which their keys were first assigned.
\<close>

lemma weight_asPlainObject_less:
  "asPlainObject v = Some kvs \<Longrightarrow> weight kvs < Suc (size v + n)"
proof -
  assume "asPlainObject v = Some kvs"
  then have "v = Obj kvs" by (cases v) (simp_all add: asPlainObject_def)
  then have "forIn v = kvs" and "asString v = None" by (simp_all add: forIn_def asString_def)
  with weight_forIn_less [of v n] show ?thesis by simp
qed

function flattenVariables_processObject ::
  "string \<Rightarrow> string \<Rightarrow> string list \<Rightarrow> (string \<times> jsval) list \<Rightarrow> string \<Rightarrow>
   (string \<times> string) list \<Rightarrow> (string \<times> string) list"
where
  "flattenVariables_processObject sep pre rks [] currentPrefix flattened = flattened"
| "flattenVariables_processObject sep pre rks ((key, v) # rest) currentPrefix flattened =
     (case asString v of
        Some s \<Rightarrow>
          flattenVariables_processObject sep pre rks rest currentPrefix
            (assign (pre @ flatKey sep rks currentPrefix key) s flattened)
      | None \<Rightarrow>
          (case asPlainObject v of
             Some kvs \<Rightarrow>
               flattenVariables_processObject sep pre rks rest currentPrefix
                 (flattenVariables_processObject sep pre rks kvs
                    (flatKey sep rks currentPrefix key) flattened)
           | None \<Rightarrow> flattenVariables_processObject sep pre rks rest currentPrefix flattened))"
  by pat_completeness auto
termination
  by (relation "measure (\<lambda>(sep, pre, rks, kvs, currentPrefix, flattened). weight kvs)")
     (auto simp: weight_Cons intro: weight_asPlainObject_less)

text \<open>
  The three constants at the head of \<^verbatim>\<open>flattenVariables\<close>:
  \<^verbatim>\<open>options?.separator || '-'\<close>, \<^verbatim>\<open>options?.prefix || ''\<close> and
  \<^verbatim>\<open>options?.rootKeys || []\<close>.
\<close>

definition flatSeparatorOf :: "FlattenOptions option \<Rightarrow> string" where
  "flatSeparatorOf options = strOr (Option.bind options separator) ''-''"

definition flatPrefixOf :: "FlattenOptions option \<Rightarrow> string" where
  "flatPrefixOf options = strOr (Option.bind options FlattenOptions.prefix) []"

definition flatRootKeysOf :: "FlattenOptions option \<Rightarrow> string list" where
  "flatRootKeysOf options = listOr (Option.bind options FlattenOptions.rootKeys) []"

definition flattenVariables :: "jsval \<Rightarrow> FlattenOptions option \<Rightarrow> (string \<times> string) list" where
  "flattenVariables obj options =
     flattenVariables_processObject (flatSeparatorOf options) (flatPrefixOf options)
       (flatRootKeysOf options) (forIn obj) [] []"

section \<open>Paths, names and shapes\<close>

text \<open>
  The value at a path of property keys. A string is a leaf: the path ends there. The
  builder loops over every value that is not a string, so its paths lead through arrays as
  through objects.
\<close>

fun valueAt :: "jsval \<Rightarrow> string list \<Rightarrow> jsval option" where
  "valueAt v [] = Some v"
| "valueAt v (k # ks) =
     (case asString v of
        Some s \<Rightarrow> None
      | None \<Rightarrow> (case map_of (forIn v) k of None \<Rightarrow> None | Some w \<Rightarrow> valueAt w ks))"

text \<open>The flattener descends into plain objects only.\<close>

fun plainValueAt :: "jsval \<Rightarrow> string list \<Rightarrow> jsval option" where
  "plainValueAt v [] = Some v"
| "plainValueAt v (k # ks) =
     (case asPlainObject v of
        None \<Rightarrow> None
      | Some kvs \<Rightarrow> (case map_of kvs k of None \<Rightarrow> None | Some w \<Rightarrow> plainValueAt w ks))"

text \<open>
  The name the builder generates for the node at a path: \<^const>\<open>fullKey\<close> at the last key,
  under the prefix that \<^const>\<open>childPrefix\<close> hands down along the keys before it.
\<close>

fun generatedName :: "string list \<Rightarrow> string \<Rightarrow> string list \<Rightarrow> string" where
  "generatedName rks currentPrefix [] = currentPrefix"
| "generatedName rks currentPrefix [k] = fullKey rks currentPrefix k"
| "generatedName rks currentPrefix (k # ks) =
     generatedName rks (childPrefix rks currentPrefix k) ks"

text \<open>
  The key the flattener computes for the node at a path: \<^const>\<open>flatKey\<close> at every key,
  each result being the prefix of the next level.
\<close>

fun flatName :: "string \<Rightarrow> string list \<Rightarrow> string \<Rightarrow> string list \<Rightarrow> string" where
  "flatName sep rks currentPrefix [] = currentPrefix"
| "flatName sep rks currentPrefix (k # ks) = flatName sep rks (flatKey sep rks currentPrefix k) ks"

text \<open>
  Every object below a value has each property key once, as every JavaScript object does;
  for an array these are its indices.
\<close>

lemma size_forIn: "asString v = None \<Longrightarrow> w \<in> snd ` set (forIn v) \<Longrightarrow> size w < size v"
proof -
  assume a: "asString v = None" and b: "w \<in> snd ` set (forIn v)"
  have "size w < weight kvs" if "w \<in> snd ` set kvs" for kvs
    using that by (induction kvs) (force simp: weight_def)+
  from this [OF b] weight_forIn [OF a] show ?thesis by simp
qed

function uniqueKeys :: "jsval \<Rightarrow> bool" where
  "uniqueKeys v =
     (case asString v of
        Some s \<Rightarrow> True
      | None \<Rightarrow> distinct (map fst (forIn v)) \<and> (\<forall>w \<in> snd ` set (forIn v). uniqueKeys w))"
  by pat_completeness auto
termination
  by (relation "measure size") (auto intro: size_forIn)

declare uniqueKeys.simps [simp del]

text \<open>
  A tree of strings: an object whose values are strings or such objects, with each key
  once at every level.
\<close>

fun stringTree :: "jsval \<Rightarrow> bool" where
  "stringTree (Str s) = True"
| "stringTree (Obj kvs) = (distinct (map fst kvs) \<and> (\<forall>w \<in> snd ` set kvs. stringTree w))"
| "stringTree _ = False"

text \<open>
  Two values have the same shape when both are strings, or both are objects with the same
  keys in the same order and values of the same shape under each key.
\<close>

fun sameShape :: "jsval \<Rightarrow> jsval \<Rightarrow> bool" where
  "sameShape (Str a) (Str b) = True"
| "sameShape (Obj kvs) (Obj kvs') =
     list_all2 (\<lambda>kv kv'. fst kv = fst kv' \<and> sameShape (snd kv) (snd kv')) kvs kvs'"
| "sameShape _ _ = False"

text \<open>
  The generated names and values of the string leaves in the order in which the builder
  reaches them: the sequence of its assignments to \<^verbatim>\<open>declaration\<close>, without the two
  hyphens in front of each name.
\<close>

function emitted :: "string list \<Rightarrow> (string \<times> jsval) list \<Rightarrow> string \<Rightarrow> (string \<times> string) list" where
  "emitted rks [] currentPrefix = []"
| "emitted rks ((key, v) # rest) currentPrefix =
     (case asString v of
        Some s \<Rightarrow> [(fullKey rks currentPrefix key, s)]
      | None \<Rightarrow> emitted rks (forIn v) (childPrefix rks currentPrefix key))
     @ emitted rks rest currentPrefix"
  by pat_completeness auto
termination
  by (relation "measure (\<lambda>(rks, kvs, currentPrefix). weight kvs)")
     (auto simp: weight_Cons intro: weight_forIn_less)

text \<open>The same for the flattener: its keys, without \<^verbatim>\<open>config.prefix\<close>, and values.\<close>

function flatEmitted ::
  "string \<Rightarrow> string list \<Rightarrow> (string \<times> jsval) list \<Rightarrow> string \<Rightarrow> (string \<times> string) list"
where
  "flatEmitted sep rks [] currentPrefix = []"
| "flatEmitted sep rks ((key, v) # rest) currentPrefix =
     (case asString v of
        Some s \<Rightarrow> [(flatKey sep rks currentPrefix key, s)]
      | None \<Rightarrow>
          (case asPlainObject v of
             Some kvs \<Rightarrow> flatEmitted sep rks kvs (flatKey sep rks currentPrefix key)
           | None \<Rightarrow> []))
     @ flatEmitted sep rks rest currentPrefix"
  by pat_completeness auto
termination
  by (relation "measure (\<lambda>(sep, rks, kvs, currentPrefix). weight kvs)")
     (auto simp: weight_Cons intro: weight_asPlainObject_less)

text \<open>
  What the builder stores in \<^verbatim>\<open>parentObj\<close> for one property of \<^verbatim>\<open>subObj\<close>: the
  reference for a string, and for any other value the object that the recursive call fills.
\<close>

definition mirrored :: "bool \<Rightarrow> string list \<Rightarrow> string \<Rightarrow> string \<Rightarrow> jsval \<Rightarrow> jsval" where
  "mirrored fallback rks currentPrefix key v =
     (case asString v of
        Some s \<Rightarrow> Str (varRef fallback (fullKey rks currentPrefix key) s)
      | None \<Rightarrow>
          Obj (snd (toCSSVariables_processObject fallback rks (forIn v)
                      (childPrefix rks currentPrefix key) ([], []))))"

text \<open>
  The string leaves below a property list, each with its path and its string, in the order
  in which the builder reaches them: the properties in the order of \<^verbatim>\<open>for ... in\<close>, and
  for a property that is not a string the leaves below it before the next property.
\<close>

function leaves :: "(string \<times> jsval) list \<Rightarrow> (string list \<times> string) list" where
  "leaves [] = []"
| "leaves ((key, v) # rest) =
     (case asString v of
        Some s \<Rightarrow> [([key], s)]
      | None \<Rightarrow> map (\<lambda>qw. (key # fst qw, snd qw)) (leaves (forIn v)))
     @ leaves rest"
  by pat_completeness auto
termination
  by (relation "measure weight") (auto simp: weight_Cons intro: weight_forIn_less)

text \<open>The same for the flattener, which descends into plain objects only.\<close>

function plainLeaves :: "(string \<times> jsval) list \<Rightarrow> (string list \<times> string) list" where
  "plainLeaves [] = []"
| "plainLeaves ((key, v) # rest) =
     (case asString v of
        Some s \<Rightarrow> [([key], s)]
      | None \<Rightarrow>
          (case asPlainObject v of
             Some kvs \<Rightarrow> map (\<lambda>qw. (key # fst qw, snd qw)) (plainLeaves kvs)
           | None \<Rightarrow> []))
     @ plainLeaves rest"
  by pat_completeness auto
termination
  by (relation "measure weight") (auto simp: weight_Cons intro: weight_asPlainObject_less)

text \<open>No object at or below the value has an own property named \<^verbatim>\<open>__proto__\<close>.\<close>

fun protoFree :: "jsval \<Rightarrow> bool" where
  "protoFree (Obj kvs) = (''__proto__'' \<notin> fst ` set kvs \<and> (\<forall>w \<in> snd ` set kvs. protoFree w))"
| "protoFree v = True"

section \<open>toCSSVariables on a store\<close>

text \<open>
  In the functional model a value has no identity, so it cannot say whether the builder
  writes into the object it was given. This section runs the same loop on a store. A store
  is the list of the objects allocated so far, an address is an index into it, and an
  object is again the list of its properties in the order of \<^verbatim>\<open>for ... in\<close>; an array is
  an object whose keys are its indices, which is all the builder sees of it.
\<close>

type_synonym addr = nat

datatype hval =
    HStr string
  | HNum int
  | HBool bool
  | HNull
  | HUndefined
  | HRef addr

type_synonym hobj = "(string \<times> hval) list"

type_synonym store = "hobj list"

text \<open>
  The properties of the object at an address. A store that a program can reach holds no
  reference to an address that was never allocated; such a reference reads as an object
  without properties.
\<close>

definition propsAt :: "store \<Rightarrow> addr \<Rightarrow> hobj" where
  "propsAt s a = (if a < length s then s ! a else [])"

text \<open>The keys that \<^verbatim>\<open>for (const key in v)\<close> visits, taken when the loop starts.\<close>

definition forInKeys :: "store \<Rightarrow> hval \<Rightarrow> string list" where
  "forInKeys s v =
     (case v of
        HRef a \<Rightarrow> map fst (propsAt s a)
      | HStr str \<Rightarrow> map showNat [0..<length str]
      | _ \<Rightarrow> [])"

text \<open>The read \<^verbatim>\<open>v[key]\<close>; a missing property reads as \<^verbatim>\<open>undefined\<close>.\<close>

definition getProp :: "store \<Rightarrow> hval \<Rightarrow> string \<Rightarrow> hval" where
  "getProp s v key =
     (case v of
        HRef a \<Rightarrow> (case map_of (propsAt s a) key of Some w \<Rightarrow> w | None \<Rightarrow> HUndefined)
      | HStr str \<Rightarrow>
          (case map_of (zip (map showNat [0..<length str]) (map (\<lambda>c. HStr [c]) str)) key of
             Some w \<Rightarrow> w | None \<Rightarrow> HUndefined)
      | _ \<Rightarrow> HUndefined)"

text \<open>
  The assignment \<^verbatim>\<open>o[key] = v\<close> on the object at an address. The store holds the own
  properties of its objects; the prototype that an assignment to \<^verbatim>\<open>__proto__\<close> sets is
  not in it.
\<close>

definition setProp :: "store \<Rightarrow> addr \<Rightarrow> string \<Rightarrow> hval \<Rightarrow> store" where
  "setProp s a key v = s[a := assign key v (propsAt s a)]"

text \<open>\<^verbatim>\<open>typeof v === 'string'\<close>, with the string.\<close>

definition hAsString :: "hval \<Rightarrow> string option" where
  "hAsString v = (case v of HStr s \<Rightarrow> Some s | _ \<Rightarrow> None)"

text \<open>
  \<^verbatim>\<open>processObject\<close> on the store. The state is the store and the closure variable
  \<^verbatim>\<open>declaration\<close>, an object that the call creates itself and that nothing else refers
  to. The keys of \<^verbatim>\<open>subObj\<close> are those it has when the loop starts. Every
  \<^verbatim>\<open>subObj[key]\<close> is read from the store as it is at that point of the loop body: the
  test and the string branch read before the assignment to \<^verbatim>\<open>parentObj[key]\<close>, the
  argument of the recursive call after it. \<^verbatim>\<open>parentObj[key] = {}\<close> allocates the next
  free address, and that new object is what \<^verbatim>\<open>parentObj[key]\<close> reads back (as the
  property, or under \<^verbatim>\<open>__proto__\<close> as the prototype): the \<^verbatim>\<open>parentObj\<close> of the
  recursive call. The
  recursion of the source is as deep as the input is nested and does not end on a cyclic
  input; the first argument bounds its depth, and \<open>None\<close> says that the bound was reached.
\<close>

fun processObject_store ::
  "nat \<Rightarrow> bool \<Rightarrow> string list \<Rightarrow> hval \<Rightarrow> string list \<Rightarrow> string \<Rightarrow> addr \<Rightarrow>
   store \<times> (string \<times> string) list \<Rightarrow> (store \<times> (string \<times> string) list) option"
where
  "processObject_store fuel fb rks subObj [] currentPrefix parentObj st = Some st"
| "processObject_store fuel fb rks subObj (key # keys) currentPrefix parentObj (s, decl) =
     (case hAsString (getProp s subObj key) of
        Some str \<Rightarrow>
          processObject_store fuel fb rks subObj keys currentPrefix parentObj
            (setProp s parentObj key (HStr (varRef fb (fullKey rks currentPrefix key) str)),
             assign (''--'' @ fullKey rks currentPrefix key) str decl)
      | None \<Rightarrow>
          (case fuel of
             0 \<Rightarrow> None
           | Suc fuel' \<Rightarrow>
               (case processObject_store fuel' fb rks
                       (getProp (setProp (s @ [[]]) parentObj key (HRef (length s))) subObj key)
                       (forInKeys (setProp (s @ [[]]) parentObj key (HRef (length s)))
                          (getProp (setProp (s @ [[]]) parentObj key (HRef (length s))) subObj key))
                       (childPrefix rks currentPrefix key) (length s)
                       (setProp (s @ [[]]) parentObj key (HRef (length s)), decl)
                of None \<Rightarrow> None
                 | Some st' \<Rightarrow>
                     processObject_store fuel fb rks subObj keys currentPrefix parentObj st')))"

record StoreOutput =
  declarationMapS :: "(string \<times> string) list"
  variablesS :: hval
  rawS :: hval

text \<open>
  \<^verbatim>\<open>toCSSVariables\<close> on the store: \<^verbatim>\<open>variables\<close> is a new object, \<^verbatim>\<open>raw\<close> is the
  argument itself.
\<close>

definition toCSSVariables_store ::
  "nat \<Rightarrow> hval \<Rightarrow> Options option \<Rightarrow> store \<Rightarrow> (store \<times> StoreOutput) option" where
  "toCSSVariables_store fuel obj options s =
     (case processObject_store fuel (includeFallbackOf options) (rootKeysOf options) obj
             (forInKeys (s @ [[]]) obj) (prefixOf options) (length s) (s @ [[]], [])
      of None \<Rightarrow> None
       | Some (s', decl) \<Rightarrow>
           Some (s', \<lparr>declarationMapS = decl, variablesS = HRef (length s), rawS = obj\<rparr>))"

text \<open>
  A value of the store represents a value of the functional model through the addresses
  from \<open>lo\<close> up to \<open>hi\<close>: scalars are equal, and a reference leads to an object with
  each key once, with the same keys in the same order and values that represent the values
  of the model.
\<close>

function repr :: "nat \<Rightarrow> nat \<Rightarrow> store \<Rightarrow> hval \<Rightarrow> jsval \<Rightarrow> bool" where
  "repr lo hi s hv t =
     (case t of
        Str str \<Rightarrow> hv = HStr str
      | Num i \<Rightarrow> hv = HNum i
      | Bool b \<Rightarrow> hv = HBool b
      | Null \<Rightarrow> hv = HNull
      | _ \<Rightarrow>
          (case hv of
             HRef a \<Rightarrow>
               lo \<le> a \<and> a < hi \<and> hi \<le> length s \<and> distinct (map fst (s ! a))
               \<and> list_all2 (\<lambda>hp kv. fst hp = fst kv \<and> repr lo hi s (snd hp) (snd kv))
                    (s ! a) (forIn t)
           | _ \<Rightarrow> False))"
  by pat_completeness auto
termination
proof (relation "measure (\<lambda>(lo, hi, s, hv, t). size t)", goal_cases)
  case 1
  show ?case by simp
next
  case (2 lo hi s hv t xs a hp kv)
  then have "snd kv \<in> snd ` set (forIn t)" and "asString t = None"
    by (simp_all add: asString_def)
  then show ?case by (simp add: size_forIn)
next
  case (3 lo hi s hv t kvs a hp kv)
  then have "snd kv \<in> snd ` set (forIn t)" and "asString t = None"
    by (simp_all add: asString_def)
  then show ?case by (simp add: size_forIn)
qed

declare repr.simps [simp del]

text \<open>Arrays and objects: the values that live in the store.\<close>

definition isContainer :: "jsval \<Rightarrow> bool" where
  "isContainer t = (case t of Arr xs \<Rightarrow> True | Obj kvs \<Rightarrow> True | _ \<Rightarrow> False)"

text \<open>A value that is no reference, or a reference below \<open>n\<close>.\<close>

definition stable :: "nat \<Rightarrow> hval \<Rightarrow> bool" where
  "stable n hv = (case hv of HRef b \<Rightarrow> b < n | _ \<Rightarrow> True)"

text \<open>
  The object at \<open>parentObj\<close> holds the properties \<open>po\<close> of the functional model, the
  objects below it lying behind it in the store.
\<close>

definition built :: "store \<Rightarrow> addr \<Rightarrow> (string \<times> jsval) list \<Rightarrow> bool" where
  "built s par po =
     (distinct (map fst (s ! par))
      \<and> list_all2 (\<lambda>hp kv. fst hp = fst kv \<and> repr (Suc par) (length s) s (snd hp) (snd kv))
           (s ! par) po)"

section \<open>Properties of camelToKebabCase\<close>

lemma replaceWhitespace_id: "\<forall>c \<in> set s. \<not> isWhitespace c \<Longrightarrow> replaceWhitespace s = s"
  by (induction s) auto

lemma hyphenBeforeDigits_id: "\<forall>c \<in> set s. \<not> isDigit c \<Longrightarrow> hyphenBeforeDigits s = s"
  by (induction s) auto

lemma hyphenBeforeUpper_id: "\<forall>c \<in> set s. \<not> isLowerOrDigit c \<Longrightarrow> hyphenBeforeUpper s = s"
  by (induction s rule: hyphenBeforeUpper.induct) auto

lemma isUpper_other:
  "isUpper c \<Longrightarrow> \<not> isWhitespace c \<and> \<not> isDigit c \<and> \<not> isLowerOrDigit c"
  by (auto simp: isUpper_def isWhitespace_def isDigit_def isLowerOrDigit_def isLower_def)

text \<open>
  Claim C8. \<^verbatim>\<open>camelToKebabCase\<close> maps \<^verbatim>\<open>borderColor\<close> to \<^verbatim>\<open>border-color\<close>,
  \<^verbatim>\<open>step2Go\<close> to \<^verbatim>\<open>step-2-go\<close>, \<^verbatim>\<open>xmlParser\<close> to \<^verbatim>\<open>xml-parser\<close> and
  \<^verbatim>\<open>XMLParser\<close> to \<^verbatim>\<open>xmlparser\<close>; a run of capitals is not split: a string of capitals
  only is lower-cased and gets no hyphen.
\<close>

theorem camelToKebabCase_reference_inputs:
  "camelToKebabCase ''borderColor'' = ''border-color''
   \<and> camelToKebabCase ''step2Go'' = ''step-2-go''
   \<and> camelToKebabCase ''xmlParser'' = ''xml-parser''
   \<and> camelToKebabCase ''XMLParser'' = ''xmlparser''
   \<and> (list_all isUpper s \<longrightarrow> camelToKebabCase s = toLowerCase s)"
proof (intro conjI impI)
  show "camelToKebabCase ''borderColor'' = ''border-color''" by code_simp
  show "camelToKebabCase ''step2Go'' = ''step-2-go''" by code_simp
  show "camelToKebabCase ''xmlParser'' = ''xml-parser''" by code_simp
  show "camelToKebabCase ''XMLParser'' = ''xmlparser''" by code_simp
next
  assume "list_all isUpper s"
  then show "camelToKebabCase s = toLowerCase s"
    by (simp add: list_all_iff camelToKebabCase_def isUpper_other replaceWhitespace_id
        hyphenBeforeDigits_id hyphenBeforeUpper_id)
qed

theorem camelToKebabCase_reference_inputs_witness:
  "list_all isUpper ''XMLP'' \<and> camelToKebabCase ''XMLP'' = ''xmlp''"
proof -
  have h: "list_all isUpper ''XMLP''" by (simp add: isUpper_def)
  have "toLowerCase ''XMLP'' = ''xmlp''" by code_simp
  with h camelToKebabCase_reference_inputs [of "''XMLP''"] show ?thesis by simp
qed

text \<open>
  Claim C3. A run of digits at the start of the string, followed by a letter, gets no hyphen
  in front of it. The second pass does not exempt position 0: \<^verbatim>\<open>2fast\<close> becomes
  \<^verbatim>\<open>-2fast\<close>.
\<close>

theorem camelToKebabCase_leading_digits: "camelToKebabCase ''2fast'' = ''-2fast''"
  by code_simp

section \<open>Association lists and the two accumulators\<close>

lemma update_fresh: "k \<notin> fst ` set al \<Longrightarrow> AList.update k v al = al @ [(k, v)]"
  by (induction al) auto

lemma assign_hyphen [simp]: "assign (CHR ''-'' # n) v al = AList.update (CHR ''-'' # n) v al"
  by (simp add: assign_def)

lemma assign_proto [simp]: "assign ''__proto__'' v al = al"
  by (simp add: assign_def)

lemma assign_other: "k \<noteq> ''__proto__'' \<Longrightarrow> assign k v al = AList.update k v al"
  by (simp add: assign_def)

lemma distinct_assign: "distinct (map fst al) \<Longrightarrow> distinct (map fst (assign k v al))"
  by (auto simp: assign_def distinct_update)

lemma map_of_fold_update:
  "map_of (fold (\<lambda>kv. AList.update (fst kv) (snd kv)) xs d) = map_of d ++ map_of (rev xs)"
proof (induction xs arbitrary: d)
  case Nil
  show ?case by simp
next
  case (Cons x xs)
  have "map_of (fold (\<lambda>kv. AList.update (fst kv) (snd kv)) (x # xs) d)
        = map_of (AList.update (fst x) (snd x) d) ++ map_of (rev xs)"
    using Cons.IH [of "AList.update (fst x) (snd x) d"] by simp
  also have "\<dots> = map_of d ++ map_of (rev (x # xs))"
    by (cases x) (simp add: update_conv' map_add_upd_left)
  finally show ?case .
qed

lemma fst_set_fold_update:
  "fst ` set (fold (\<lambda>kv. AList.update (fst kv) (snd kv)) xs d) = fst ` set d \<union> fst ` set xs"
  by (induction xs arbitrary: d) (auto simp: dom_update)

lemma distinct_fold_update:
  "distinct (map fst d) \<Longrightarrow> distinct (map fst (fold (\<lambda>kv. AList.update (fst kv) (snd kv)) xs d))"
  by (induction xs arbitrary: d) (auto simp: distinct_update)

text \<open>Last write wins: the value under a key is the one of the last entry with that key.\<close>

lemma map_of_rev_last:
  "xs = ys @ (k, w) # zs \<Longrightarrow> k \<notin> fst ` set zs \<Longrightarrow> map_of (rev xs) k = Some w"
proof -
  assume xs: "xs = ys @ (k, w) # zs" and fresh: "k \<notin> fst ` set zs"
  from fresh have "map_of (rev zs) k = None" by (simp add: map_of_eq_None_iff)
  then show ?thesis unfolding xs by (simp add: map_add_def)
qed

lemma fold_assign_filter:
  "fold (\<lambda>kv. assign (fst kv) (snd kv)) xs d
   = fold (\<lambda>kv. AList.update (fst kv) (snd kv)) (filter (\<lambda>kv. fst kv \<noteq> ''__proto__'') xs) d"
  by (induction xs arbitrary: d) (simp_all add: assign_def)

lemma processObject_vars_indep':
  "snd (toCSSVariables_processObject fb rks kvs cp st) =
   snd (toCSSVariables_processObject fb rks kvs cp (d', snd st))"
proof (induction fb rks kvs cp st arbitrary: d' rule: toCSSVariables_processObject.induct)
  case (1 fb rks cp st)
  show ?case by simp
next
  case (2 fb rks key v rest cp decl parentObj)
  show ?case
  proof (cases "asString v")
    case (Some s)
    from "2.IH"(3) [OF Some] show ?thesis using Some by simp
  next
    case None
    obtain d1 c1 where r1: "toCSSVariables_processObject fb rks (forIn v) (childPrefix rks cp key) (decl, []) = (d1, c1)"
      by (cases "toCSSVariables_processObject fb rks (forIn v) (childPrefix rks cp key) (decl, [])")
    obtain d2 c2 where r2: "toCSSVariables_processObject fb rks (forIn v) (childPrefix rks cp key) (d', []) = (d2, c2)"
      by (cases "toCSSVariables_processObject fb rks (forIn v) (childPrefix rks cp key) (d', [])")
    from "2.IH"(1) [OF None, of d'] r1 r2 have c: "c1 = c2" by simp
    from "2.IH"(2) [OF None r1 [symmetric], of d2] show ?thesis
      using None r1 r2 c by simp
  qed
qed

lemma processObject_vars_indep:
  "snd (toCSSVariables_processObject fb rks kvs cp (d, po)) =
   snd (toCSSVariables_processObject fb rks kvs cp ([], po))"
  using processObject_vars_indep' [of fb rks kvs cp "(d, po)" "[]"] by simp

lemma processObject_vars_fold:
  "snd (toCSSVariables_processObject fb rks kvs cp (d, po)) =
   fold (\<lambda>kv. assign (fst kv) (mirrored fb rks cp (fst kv) (snd kv))) kvs po"
proof (induction kvs arbitrary: d po)
  case Nil
  show ?case by simp
next
  case (Cons kv kvs)
  obtain key v where kv: "kv = (key, v)" by (cases kv)
  show ?case
  proof (cases "asString v")
    case (Some s)
    with kv Cons.IH show ?thesis by (simp add: mirrored_def)
  next
    case None
    obtain d1 c1 where r1: "toCSSVariables_processObject fb rks (forIn v) (childPrefix rks cp key) (d, []) = (d1, c1)"
      by (cases "toCSSVariables_processObject fb rks (forIn v) (childPrefix rks cp key) (d, [])")
    have "c1 = snd (toCSSVariables_processObject fb rks (forIn v) (childPrefix rks cp key) ([], []))"
      using processObject_vars_indep [of fb rks "forIn v" "childPrefix rks cp key" d "[]"] r1 by simp
    with kv None r1 Cons.IH show ?thesis by (simp add: mirrored_def)
  qed
qed

lemma fold_update_distinct:
  "distinct (map fst kvs) \<Longrightarrow> fst ` set kvs \<inter> fst ` set po = {} \<Longrightarrow>
   fold (\<lambda>kv. AList.update (fst kv) (f (fst kv) (snd kv))) kvs po
   = po @ map (\<lambda>(k, v). (k, f k v)) kvs"
proof (induction kvs arbitrary: po)
  case Nil
  show ?case by simp
next
  case (Cons kv kvs)
  obtain k v where kv: "kv = (k, v)" by (cases kv)
  from Cons.prems kv have fresh: "k \<notin> fst ` set po" by auto
  from Cons.prems kv have "fst ` set kvs \<inter> fst ` set (po @ [(k, f k v)]) = {}"
    by (auto simp: image_iff)
  with Cons.IH [of "po @ [(k, f k v)]"] Cons.prems fresh kv show ?case
    by (simp add: update_fresh)
qed

lemma fold_assign_keyed_filter:
  "fold (\<lambda>kv. assign (fst kv) (f (fst kv) (snd kv))) kvs po
   = fold (\<lambda>kv. AList.update (fst kv) (f (fst kv) (snd kv)))
       (filter (\<lambda>kv. fst kv \<noteq> ''__proto__'') kvs) po"
  by (induction kvs arbitrary: po) (simp_all add: assign_def)

text \<open>
  The own properties of the object the builder fills: one for every property of
  \<^verbatim>\<open>subObj\<close> that is not named \<^verbatim>\<open>__proto__\<close>.
\<close>

lemma processObject_vars_map:
  "distinct (map fst kvs) \<Longrightarrow>
   snd (toCSSVariables_processObject fb rks kvs cp (d, []))
   = map (\<lambda>(k, v). (k, mirrored fb rks cp k v)) (filter (\<lambda>kv. fst kv \<noteq> ''__proto__'') kvs)"
  using fold_update_distinct [of "filter (\<lambda>kv. fst kv \<noteq> ''__proto__'') kvs" "[]" "mirrored fb rks cp"]
  by (simp add: processObject_vars_fold fold_assign_keyed_filter distinct_map_filter)

lemma processObject_decl_fold:
  "fst (toCSSVariables_processObject fb rks kvs cp st) =
   fold (\<lambda>kv. AList.update (''--'' @ fst kv) (snd kv)) (emitted rks kvs cp) (fst st)"
proof (induction fb rks kvs cp st rule: toCSSVariables_processObject.induct)
  case (1 fb rks cp st)
  show ?case by simp
next
  case (2 fb rks key v rest cp decl parentObj)
  show ?case
  proof (cases "asString v")
    case (Some s)
    from "2.IH"(3) [OF Some] show ?thesis using Some by simp
  next
    case None
    obtain d1 c1 where r1: "toCSSVariables_processObject fb rks (forIn v) (childPrefix rks cp key) (decl, []) = (d1, c1)"
      by (cases "toCSSVariables_processObject fb rks (forIn v) (childPrefix rks cp key) (decl, [])")
    from "2.IH"(1) [OF None] "2.IH"(2) [OF None r1 [symmetric]] show ?thesis
      using None r1 by simp
  qed
qed

lemma asString_Obj [simp]: "asString (Obj kvs) = None"
  by (simp add: asString_def)

lemma forIn_Obj [simp]: "forIn (Obj kvs) = kvs"
  by (simp add: forIn_def)

lemma asString_Str [simp]: "asString (Str s) = Some s"
  by (simp add: asString_def)

lemma asString_SomeD: "asString v = Some s \<Longrightarrow> v = Str s"
  by (cases v) (simp_all add: asString_def)

lemma valueAt_Cons_SomeD:
  "valueAt v (k # ks) = Some x \<Longrightarrow> asString v = None"
  by (cases "asString v") simp_all

lemma uniqueKeys_Obj:
  "uniqueKeys (Obj kvs) = (distinct (map fst kvs) \<and> (\<forall>w \<in> snd ` set kvs. uniqueKeys w))"
  by (simp add: uniqueKeys.simps [of "Obj kvs"])

lemma uniqueKeys_forIn:
  "uniqueKeys v \<Longrightarrow> asString v = None \<Longrightarrow> uniqueKeys (Obj (forIn v))"
  by (simp add: uniqueKeys_Obj) (simp add: uniqueKeys.simps [of v])

lemma map_of_map_keyed:
  "map_of (map (\<lambda>(k, v). (k, f k v)) kvs) k = map_option (f k) (map_of kvs k)"
  by (induction kvs) auto

lemma map_of_filter_other:
  "k \<noteq> k0 \<Longrightarrow> map_of (filter (\<lambda>kv. fst kv \<noteq> k0) kvs) k = map_of kvs k"
  by (induction kvs) auto

lemma vars_at_path:
  "uniqueKeys (Obj kvs) \<Longrightarrow> p \<noteq> [] \<Longrightarrow> ''__proto__'' \<notin> set p \<Longrightarrow>
   valueAt (Obj kvs) p = Some (Str s) \<Longrightarrow>
   valueAt (Obj (map (\<lambda>(k, v). (k, mirrored fb rks cp k v))
                  (filter (\<lambda>kv. fst kv \<noteq> ''__proto__'') kvs))) p
   = Some (Str (varRef fb (generatedName rks cp p) s))"
proof (induction p arbitrary: kvs cp)
  case Nil
  then show ?case by simp
next
  case (Cons k ks)
  from Cons.prems(4) obtain w where w: "map_of kvs k = Some w" and at: "valueAt w ks = Some (Str s)"
    by (auto split: option.splits)
  from Cons.prems(3) have kp: "k \<noteq> ''__proto__''" and ksp: "''__proto__'' \<notin> set ks" by auto
  from w have mem: "w \<in> snd ` set kvs" by (force dest: map_of_SomeD)
  with Cons.prems(1) have uw: "uniqueKeys w" by (auto simp: uniqueKeys_Obj)
  have m: "map_of (map (\<lambda>(k, v). (k, mirrored fb rks cp k v))
                     (filter (\<lambda>kv. fst kv \<noteq> ''__proto__'') kvs)) k
           = Some (mirrored fb rks cp k w)"
    using w kp by (simp add: map_of_map_keyed map_of_filter_other)
  show ?case
  proof (cases ks)
    case Nil
    with at have "w = Str s" by simp
    with m Nil show ?thesis by (simp add: mirrored_def)
  next
    case (Cons k' ks')
    with at have ns: "asString w = None" using valueAt_Cons_SomeD [of w k' ks' "Str s"] by simp
    from uniqueKeys_forIn [OF uw ns] have u': "uniqueKeys (Obj (forIn w))" .
    then have d': "distinct (map fst (forIn w))" by (simp add: uniqueKeys_Obj)
    from at ns Cons have at': "valueAt (Obj (forIn w)) ks = Some (Str s)" by simp
    have "ks \<noteq> []" using Cons by simp
    from Cons.IH [OF u' this ksp at', of "childPrefix rks cp k"]
    have "valueAt (Obj (map (\<lambda>(k', v). (k', mirrored fb rks (childPrefix rks cp k) k' v))
                         (filter (\<lambda>kv. fst kv \<noteq> ''__proto__'') (forIn w)))) ks
          = Some (Str (varRef fb (generatedName rks (childPrefix rks cp k) ks) s))" .
    moreover have "mirrored fb rks cp k w
          = Obj (map (\<lambda>(k', v). (k', mirrored fb rks (childPrefix rks cp k) k' v))
                   (filter (\<lambda>kv. fst kv \<noteq> ''__proto__'') (forIn w)))"
      using ns d' by (simp add: mirrored_def processObject_vars_map)
    ultimately show ?thesis using m Cons by simp
  qed
qed

lemma filter_protoFree:
  "''__proto__'' \<notin> fst ` set kvs \<Longrightarrow> filter (\<lambda>kv. fst kv \<noteq> ''__proto__'') kvs = kvs"
  by (induction kvs) auto

lemma mirrored_sameShape:
  "stringTree v \<Longrightarrow> protoFree v \<Longrightarrow> sameShape v (mirrored fb rks cp k v)"
proof (induction v arbitrary: cp k rule: stringTree.induct)
  case (1 s)
  show ?case by (simp add: mirrored_def)
next
  case (2 kvs)
  from "2.prems" have d: "distinct (map fst kvs)" by simp
  from "2.prems" have np: "''__proto__'' \<notin> fst ` set kvs" by simp
  have "list_all2 (\<lambda>kv kv'. fst kv = fst kv' \<and> sameShape (snd kv) (snd kv')) kvs
          (map (\<lambda>(k', v). (k', mirrored fb rks (childPrefix rks cp k) k' v)) kvs)"
  proof (simp add: list_all2_map2, rule list_all2_all_nthI [OF refl])
    fix n assume "n < length kvs"
    then have mem: "kvs ! n \<in> set kvs" by simp
    then have im: "snd (kvs ! n) \<in> snd ` set kvs" by simp
    with "2.prems" have "stringTree (snd (kvs ! n))" and "protoFree (snd (kvs ! n))" by auto
    from "2.IH" [OF im this, of "childPrefix rks cp k" "fst (kvs ! n)"]
    show "fst (kvs ! n) = fst (case kvs ! n of (k', v) \<Rightarrow> (k', mirrored fb rks (childPrefix rks cp k) k' v)) \<and>
          sameShape (snd (kvs ! n)) (snd (case kvs ! n of (k', v) \<Rightarrow> (k', mirrored fb rks (childPrefix rks cp k) k' v)))"
      by (cases "kvs ! n") simp
  qed
  then show ?case using d np by (simp add: mirrored_def processObject_vars_map filter_protoFree)
qed simp_all

section \<open>The leaves the builder reaches\<close>

lemma leaves_nonempty: "(q, w) \<in> set (leaves kvs) \<Longrightarrow> q \<noteq> []"
  by (induction kvs arbitrary: q w rule: leaves.induct) (auto split: option.splits)

lemma generatedName_Cons:
  "q \<noteq> [] \<Longrightarrow> generatedName rks cp (k # q) = generatedName rks (childPrefix rks cp k) q"
  by (cases q) simp_all

lemma emitted_leaves:
  "emitted rks kvs cp = map (\<lambda>qw. (generatedName rks cp (fst qw), snd qw)) (leaves kvs)"
proof (induction rks kvs cp rule: emitted.induct)
  case (1 rks cp)
  show ?case by simp
next
  case (2 rks key v rest cp)
  show ?case
  proof (cases "asString v")
    case (Some s)
    with "2.IH"(2) show ?thesis by simp
  next
    case None
    have "map (\<lambda>qw. (generatedName rks (childPrefix rks cp key) (fst qw), snd qw)) (leaves (forIn v))
          = map (\<lambda>qw. (generatedName rks cp (key # fst qw), snd qw)) (leaves (forIn v))"
    proof (rule map_cong [OF refl])
      fix qw assume "qw \<in> set (leaves (forIn v))"
      then have "fst qw \<noteq> []" using leaves_nonempty [of "fst qw" "snd qw" "forIn v"] by simp
      then show "(generatedName rks (childPrefix rks cp key) (fst qw), snd qw)
                 = (generatedName rks cp (key # fst qw), snd qw)"
        by (simp add: generatedName_Cons)
    qed
    with "2.IH"(1) [OF None] "2.IH"(2) None show ?thesis by (simp add: comp_def)
  qed
qed

lemma leaves_entry_subset:
  "(k, w) \<in> set kvs \<Longrightarrow>
   set (case asString w of Some s \<Rightarrow> [([k], s)]
        | None \<Rightarrow> map (\<lambda>qw. (k # fst qw, snd qw)) (leaves (forIn w)))
   \<subseteq> set (leaves kvs)"
  by (induction kvs) auto

lemma leaves_complete:
  "p \<noteq> [] \<Longrightarrow> valueAt (Obj kvs) p = Some (Str s) \<Longrightarrow> (p, s) \<in> set (leaves kvs)"
proof (induction p arbitrary: kvs)
  case Nil
  then show ?case by simp
next
  case (Cons k ks)
  from Cons.prems(2) obtain w where w: "map_of kvs k = Some w" and at: "valueAt w ks = Some (Str s)"
    by (auto split: option.splits)
  from w have mem: "(k, w) \<in> set kvs" by (rule map_of_SomeD)
  note sub = leaves_entry_subset [OF mem]
  show ?case
  proof (cases ks)
    case Nil
    with at have "w = Str s" by simp
    with sub Nil show ?thesis by simp
  next
    case (Cons k' ks')
    with at have ns: "asString w = None" using valueAt_Cons_SomeD [of w k' ks' "Str s"] by simp
    from at ns Cons have at': "valueAt (Obj (forIn w)) ks = Some (Str s)" by simp
    have "ks \<noteq> []" using Cons by simp
    from Cons.IH [OF this at'] have "(ks, s) \<in> set (leaves (forIn w))" .
    then have "(k # ks, s) \<in> set (map (\<lambda>qw. (k # fst qw, snd qw)) (leaves (forIn w)))" by force
    with sub ns show ?thesis by auto
  qed
qed

lemma valueAt_Obj_key:
  "valueAt (Obj kvs) (k # ks) = Some x \<Longrightarrow> k \<in> fst ` set kvs"
proof -
  assume "valueAt (Obj kvs) (k # ks) = Some x"
  then obtain w where "map_of kvs k = Some w" by (auto split: option.splits)
  then have "(k, w) \<in> set kvs" by (rule map_of_SomeD)
  then show ?thesis by force
qed

lemma leaves_sound:
  "uniqueKeys (Obj kvs) \<Longrightarrow> (q, w) \<in> set (leaves kvs) \<Longrightarrow>
   q \<noteq> [] \<and> valueAt (Obj kvs) q = Some (Str w)"
proof (induction kvs arbitrary: q w rule: leaves.induct)
  case 1
  then show ?case by simp
next
  case (2 key v rest)
  from "2.prems"(1) have fresh: "key \<notin> fst ` set rest" and ur: "uniqueKeys (Obj rest)"
    and uv: "uniqueKeys v"
    by (auto simp: uniqueKeys_Obj)
  from "2.prems"(2) consider
      (here) "(q, w) \<in> set (case asString v of Some s \<Rightarrow> [([key], s)]
                | None \<Rightarrow> map (\<lambda>qw. (key # fst qw, snd qw)) (leaves (forIn v)))"
    | (later) "(q, w) \<in> set (leaves rest)"
    by auto
  then show ?case
  proof cases
    case later
    from "2.IH"(2) [OF ur later] have q: "q \<noteq> []" "valueAt (Obj rest) q = Some (Str w)" by simp_all
    from q(1) obtain k ks where pk: "q = k # ks" by (cases q) auto
    from q(2) [unfolded pk] have "k \<in> fst ` set rest" by (rule valueAt_Obj_key)
    with fresh have "k \<noteq> key" by auto
    with q pk show ?thesis by simp
  next
    case here
    show ?thesis
    proof (cases "asString v")
      case (Some s')
      with here have "q = [key]" "w = s'" by auto
      moreover from Some have "v = Str s'" by (rule asString_SomeD)
      ultimately show ?thesis by simp
    next
      case None
      with here obtain q' where q': "q = key # q'" "(q', w) \<in> set (leaves (forIn v))" by auto
      from "2.IH"(1) [OF None uniqueKeys_forIn [OF uv None] q'(2)]
      have a: "q' \<noteq> []" "valueAt (Obj (forIn v)) q' = Some (Str w)" by simp_all
      from a(1) obtain k ks where "q' = k # ks" by (cases q') auto
      with a None q' show ?thesis by simp
    qed
  qed
qed

lemma valueAt_nonempty_forIn:
  "p \<noteq> [] \<Longrightarrow> valueAt obj p = Some x \<Longrightarrow> valueAt (Obj (forIn obj)) p = Some x \<and> asString obj = None"
proof -
  assume "p \<noteq> []" and at: "valueAt obj p = Some x"
  then obtain k ks where p: "p = k # ks" by (cases p) auto
  from at [unfolded p] have "asString obj = None" by (rule valueAt_Cons_SomeD)
  with at p show ?thesis by simp
qed

text \<open>The leaves of a value with each key once are the strings at its paths.\<close>

lemma leaves_iff:
  assumes "uniqueKeys obj" and "asString obj = None"
  shows "((q, w) \<in> set (leaves (forIn obj))) = (q \<noteq> [] \<and> valueAt obj q = Some (Str w))"
proof
  assume "(q, w) \<in> set (leaves (forIn obj))"
  from leaves_sound [OF uniqueKeys_forIn [OF assms] this]
  have q: "q \<noteq> []" "valueAt (Obj (forIn obj)) q = Some (Str w)" by simp_all
  from q(1) obtain k ks where "q = k # ks" by (cases q) auto
  with q assms(2) show "q \<noteq> [] \<and> valueAt obj q = Some (Str w)" by simp
next
  assume a: "q \<noteq> [] \<and> valueAt obj q = Some (Str w)"
  with valueAt_nonempty_forIn [of q obj "Str w"]
  have "valueAt (Obj (forIn obj)) q = Some (Str w)" by simp
  with a show "(q, w) \<in> set (leaves (forIn obj))" by (simp add: leaves_complete)
qed

section \<open>Properties of toCSSVariables\<close>

lemma fold_update_prefixed:
  "fold (\<lambda>kv. AList.update (pre @ fst kv) (snd kv)) xs d
   = fold (\<lambda>kv. AList.update (fst kv) (snd kv)) (map (\<lambda>kv. (pre @ fst kv, snd kv)) xs) d"
  by (simp add: fold_map comp_def)

lemma toCSSVariables_fields:
  "declarationMap (toCSSVariables obj options)
     = fst (toCSSVariables_processObject (includeFallbackOf options) (rootKeysOf options)
              (forIn obj) (prefixOf options) ([], []))"
  "variables (toCSSVariables obj options)
     = Obj (snd (toCSSVariables_processObject (includeFallbackOf options) (rootKeysOf options)
              (forIn obj) (prefixOf options) ([], [])))"
  "raw (toCSSVariables obj options) = obj"
  by (simp_all add: toCSSVariables_def split: prod.splits)

lemma toCSSVariables_variables:
  "distinct (map fst (forIn obj)) \<Longrightarrow>
   variables (toCSSVariables obj options)
   = Obj (map (\<lambda>(k, v). (k, mirrored (includeFallbackOf options) (rootKeysOf options)
                               (prefixOf options) k v))
            (filter (\<lambda>kv. fst kv \<noteq> ''__proto__'') (forIn obj)))"
  by (simp add: toCSSVariables_fields processObject_vars_map)

text \<open>
  The declaration as a map: the leaves in the order of the walk, each under its generated
  name with two hyphens in front, a later leaf overriding an earlier one of the same name.
\<close>

lemma toCSSVariables_declarationMap:
  "declarationMap (toCSSVariables obj options)
   = fold (\<lambda>kv. AList.update (fst kv) (snd kv))
       (map (\<lambda>kv. (''--'' @ fst kv, snd kv))
          (emitted (rootKeysOf options) (forIn obj) (prefixOf options))) []"
  using fold_update_prefixed [of "''--''"]
  by (simp add: toCSSVariables_fields processObject_decl_fold)

lemma map_of_declarationMap:
  "map_of (declarationMap (toCSSVariables obj options))
   = map_of (rev (map (\<lambda>qw. (''--'' @ generatedName (rootKeysOf options) (prefixOf options) (fst qw),
                             snd qw)) (leaves (forIn obj))))"
proof -
  have "map (\<lambda>kv. (''--'' @ fst kv, snd kv))
          (emitted (rootKeysOf options) (forIn obj) (prefixOf options))
        = map (\<lambda>qw. (''--'' @ generatedName (rootKeysOf options) (prefixOf options) (fst qw),
                      snd qw)) (leaves (forIn obj))"
    by (simp add: emitted_leaves comp_def)
  then show ?thesis
    by (simp only: toCSSVariables_declarationMap map_of_fold_update) simp
qed

lemma sameShape_mirrored_map:
  assumes "stringTree (Obj kvs)" and "protoFree (Obj kvs)"
  shows "sameShape (Obj kvs) (Obj (map (\<lambda>(k, v). (k, mirrored fb rks cp k v)) kvs))"
proof -
  have "list_all2 (\<lambda>kv kv'. fst kv = fst kv' \<and> sameShape (snd kv) (snd kv')) kvs
          (map (\<lambda>(k, v). (k, mirrored fb rks cp k v)) kvs)"
  proof (simp add: list_all2_map2, rule list_all2_all_nthI [OF refl])
    fix n assume "n < length kvs"
    then have "snd (kvs ! n) \<in> snd ` set kvs" by simp
    with assms have "stringTree (snd (kvs ! n))" and "protoFree (snd (kvs ! n))" by auto
    from mirrored_sameShape [OF this, of fb rks cp "fst (kvs ! n)"]
    show "fst (kvs ! n) = fst (case kvs ! n of (k, v) \<Rightarrow> (k, mirrored fb rks cp k v)) \<and>
          sameShape (snd (kvs ! n)) (snd (case kvs ! n of (k, v) \<Rightarrow> (k, mirrored fb rks cp k v)))"
      by (cases "kvs ! n") simp
  qed
  then show ?thesis by simp
qed

text \<open>
  For a tree of strings in which no property is named \<^verbatim>\<open>__proto__\<close> the object
  \<^verbatim>\<open>variables\<close> does have the shape of the input at every depth.
\<close>

lemma toCSSVariables_shape_protoFree:
  "stringTree (Obj kvs) \<Longrightarrow> protoFree (Obj kvs) \<Longrightarrow>
   sameShape (Obj kvs) (variables (toCSSVariables (Obj kvs) options))
   \<and> raw (toCSSVariables (Obj kvs) options) = Obj kvs"
proof -
  assume t: "stringTree (Obj kvs)" and f: "protoFree (Obj kvs)"
  then have d: "distinct (map fst (forIn (Obj kvs)))"
    and np: "''__proto__'' \<notin> fst ` set kvs" by simp_all
  from toCSSVariables_variables [OF d, of options] sameShape_mirrored_map [OF t f]
  have "sameShape (Obj kvs) (variables (toCSSVariables (Obj kvs) options))"
    by (simp add: filter_protoFree [OF np])
  moreover have "raw (toCSSVariables (Obj kvs) options) = Obj kvs"
    by (simp add: toCSSVariables_fields)
  ultimately show ?thesis by simp
qed

text \<open>
  Claim C2. For every tree of strings the object \<^verbatim>\<open>variables\<close> has the keys and the
  nesting of the input at every depth. The builder breaks this on an input with an own
  property named \<^verbatim>\<open>__proto__\<close>, as \<^verbatim>\<open>JSON.parse('{"__proto__": "x", "a": "y"}')\<close> gives:
  the assignment \<^verbatim>\<open>parentObj['__proto__'] = 'var(--__proto__)'\<close> reaches the inherited
  setter, \<^verbatim>\<open>variables\<close> has the one property \<^verbatim>\<open>a\<close> and so not the shape of the input,
  while the declaration has both names.
\<close>

theorem toCSSVariables_shape_proto_key:
  "stringTree (Obj [(''__proto__'', Str ''x''), (''a'', Str ''y'')])
   \<and> toCSSVariables (Obj [(''__proto__'', Str ''x''), (''a'', Str ''y'')]) None
       = \<lparr>declarationMap = [(''--__proto__'', ''x''), (''--a'', ''y'')],
          variables = Obj [(''a'', Str ''var(--a)'')],
          raw = Obj [(''__proto__'', Str ''x''), (''a'', Str ''y'')]\<rparr>
   \<and> \<not> sameShape (Obj [(''__proto__'', Str ''x''), (''a'', Str ''y'')])
         (variables (toCSSVariables (Obj [(''__proto__'', Str ''x''), (''a'', Str ''y'')]) None))"
proof -
  let ?T = "Obj [(''__proto__'', Str ''x''), (''a'', Str ''y'')]"
  have t: "stringTree ?T" by simp
  have e: "toCSSVariables ?T None
       = \<lparr>declarationMap = [(''--__proto__'', ''x''), (''--a'', ''y'')],
          variables = Obj [(''a'', Str ''var(--a)'')], raw = ?T\<rparr>"
    by code_simp
  have "\<not> sameShape ?T (variables (toCSSVariables ?T None))" unfolding e by simp
  with t e show ?thesis by simp
qed

lemma varRef_eq:
  "varRef fb n v = (if fb then ''var(--'' @ n @ '', '' @ v @ '')'' else ''var(--'' @ n @ '')'')"
  by (simp add: varRef_def)

text \<open>
  Claim C1, as amended. Let \<open>p\<close> be the path of a string leaf \<open>v\<close> of the input and
  \<open>n\<close> the name generated for \<open>p\<close>. When no key on \<open>p\<close> is \<^verbatim>\<open>__proto__\<close>, the leaf at
  \<open>p\<close> in \<^verbatim>\<open>variables\<close> is \<^verbatim>\<open>var(--n)\<close>, or \<^verbatim>\<open>var(--n, v)\<close> with
  \<^verbatim>\<open>includeFallback\<close>. The declaration has the key \<^verbatim>\<open>--n\<close>, the name with the two hyphens
  of the reference in front, and the last write wins: under the name of any leaf the
  declaration holds the value of the last leaf in the order of the walk that has this name.
  So it holds \<open>v\<close> under \<^verbatim>\<open>--n\<close> when every leaf with the name \<open>n\<close> has the value \<open>v\<close>.
\<close>

theorem toCSSVariables_declaration_reference:
  assumes "uniqueKeys obj" and "p \<noteq> []" and "valueAt obj p = Some (Str v)"
    and "n = generatedName (rootKeysOf options) (prefixOf options) p"
    and "r = toCSSVariables obj options"
  shows "(''__proto__'' \<notin> set p \<longrightarrow>
           valueAt (variables r) p
             = Some (Str (if includeFallbackOf options then ''var(--'' @ n @ '', '' @ v @ '')''
                          else ''var(--'' @ n @ '')'')))
         \<and> (\<forall>q w. ((q, w) \<in> set (leaves (forIn obj)))
                   = (q \<noteq> [] \<and> valueAt obj q = Some (Str w)))
         \<and> (\<forall>m ys q w zs.
               leaves (forIn obj) = ys @ (q, w) # zs
               \<and> generatedName (rootKeysOf options) (prefixOf options) q = m
               \<and> (\<forall>qw \<in> set zs.
                     generatedName (rootKeysOf options) (prefixOf options) (fst qw) \<noteq> m)
               \<longrightarrow> map_of (declarationMap r) (''--'' @ m) = Some w)
         \<and> (\<exists>ys q w zs.
               leaves (forIn obj) = ys @ (q, w) # zs
               \<and> generatedName (rootKeysOf options) (prefixOf options) q = n
               \<and> (\<forall>qw \<in> set zs.
                     generatedName (rootKeysOf options) (prefixOf options) (fst qw) \<noteq> n)
               \<and> map_of (declarationMap r) (''--'' @ n) = Some w)
         \<and> ((\<forall>q w. q \<noteq> [] \<and> valueAt obj q = Some (Str w)
                \<and> generatedName (rootKeysOf options) (prefixOf options) q = n \<longrightarrow> w = v)
              \<longrightarrow> map_of (declarationMap r) (''--'' @ n) = Some v)"
proof -
  let ?rks = "rootKeysOf options" and ?pre = "prefixOf options"
  let ?name = "generatedName ?rks ?pre"
  let ?g = "\<lambda>qw. (''--'' @ ?name (fst qw), snd qw)"
  let ?L = "leaves (forIn obj)"
  from valueAt_nonempty_forIn [OF assms(2,3)]
  have at: "valueAt (Obj (forIn obj)) p = Some (Str v)" and ns: "asString obj = None" by simp_all
  from uniqueKeys_forIn [OF assms(1) ns] have u: "uniqueKeys (Obj (forIn obj))" .
  then have d: "distinct (map fst (forIn obj))" by (simp add: uniqueKeys_Obj)
  have vars: "valueAt (variables r) p
           = Some (Str (if includeFallbackOf options then ''var(--'' @ n @ '', '' @ v @ '')''
                        else ''var(--'' @ n @ '')''))"
    if np: "''__proto__'' \<notin> set p"
    using vars_at_path [OF u assms(2) np at, of "includeFallbackOf options" ?rks ?pre]
    by (simp add: assms(4,5) toCSSVariables_variables [OF d] varRef_eq)
  have iff: "\<forall>q w. ((q, w) \<in> set ?L) = (q \<noteq> [] \<and> valueAt obj q = Some (Str w))"
    using leaves_iff [OF assms(1) ns] by simp
  have last: "map_of (declarationMap r) (''--'' @ m) = Some w"
    if split: "?L = ys @ (q, w) # zs" and name: "?name q = m"
      and later: "\<forall>qw \<in> set zs. ?name (fst qw) \<noteq> m" for m ys q w zs
  proof -
    have "map ?g ?L = map ?g ys @ (''--'' @ m, w) # map ?g zs"
      unfolding split using name by simp
    moreover from later have "''--'' @ m \<notin> fst ` set (map ?g zs)" by auto
    ultimately have "map_of (rev (map ?g ?L)) (''--'' @ m) = Some w"
      by (rule map_of_rev_last)
    then show ?thesis unfolding assms(5) map_of_declarationMap .
  qed
  from assms(2,3) iff have mem: "(p, v) \<in> set ?L" by simp
  then have "\<exists>qw \<in> set ?L. ?name (fst qw) = n" using assms(4) by force
  from split_list_last_prop [OF this]
  obtain ys qw zs where sp: "?L = ys @ qw # zs" "?name (fst qw) = n"
    "\<forall>z \<in> set zs. ?name (fst z) \<noteq> n" by blast
  obtain q w where qw: "qw = (q, w)" by (cases qw)
  from last [of ys q w zs n] sp qw
  have lw: "map_of (declarationMap r) (''--'' @ n) = Some w" by simp
  from sp qw lw have ex: "\<exists>ys q w zs. ?L = ys @ (q, w) # zs \<and> ?name q = n
               \<and> (\<forall>qw \<in> set zs. ?name (fst qw) \<noteq> n)
               \<and> map_of (declarationMap r) (''--'' @ n) = Some w"
    by auto
  have uniq: "map_of (declarationMap r) (''--'' @ n) = Some v"
    if h: "\<forall>q w. q \<noteq> [] \<and> valueAt obj q = Some (Str w) \<and> ?name q = n \<longrightarrow> w = v"
  proof -
    from sp(1) qw have "(q, w) \<in> set ?L" by simp
    with iff have "q \<noteq> [] \<and> valueAt obj q = Some (Str w)" by simp
    with h [rule_format, of q w] sp(2) qw have "w = v" by simp
    with lw show ?thesis by simp
  qed
  from vars iff last ex uniq show ?thesis by blast
qed

theorem toCSSVariables_declaration_reference_witness:
  "uniqueKeys (Obj [(''text'', Obj [(''DEFAULT'', Str ''#111''), (''muted'', Str ''#333'')]),
                    (''Text'', Str ''#999'')])
   \<and> valueAt (Obj [(''text'', Obj [(''DEFAULT'', Str ''#111''), (''muted'', Str ''#333'')]),
                    (''Text'', Str ''#999'')]) [''text'', ''DEFAULT''] = Some (Str ''#111'')
   \<and> generatedName [''DEFAULT''] ''my-prefix'' [''text'', ''DEFAULT''] = ''my-prefix-text''
   \<and> ''__proto__'' \<notin> set [''text'', ''DEFAULT'']
   \<and> leaves [(''text'', Obj [(''DEFAULT'', Str ''#111''), (''muted'', Str ''#333'')]),
              (''Text'', Str ''#999'')]
       = [([''text'', ''DEFAULT''], ''#111'')] @ ([''text'', ''muted''], ''#333'')
         # [([''Text''], ''#999'')]
   \<and> generatedName [''DEFAULT''] ''my-prefix'' [''Text''] = ''my-prefix-text''
   \<and> valueAt (variables (toCSSVariables
         (Obj [(''text'', Obj [(''DEFAULT'', Str ''#111''), (''muted'', Str ''#333'')]),
               (''Text'', Str ''#999'')])
         (Some \<lparr>Options.prefix = Some ''my-prefix'', includeFallback = Some True,
                 Options.rootKeys = Some [''DEFAULT'']\<rparr>))) [''text'', ''DEFAULT'']
       = Some (Str ''var(--my-prefix-text, #111)'')
   \<and> map_of (declarationMap (toCSSVariables
         (Obj [(''text'', Obj [(''DEFAULT'', Str ''#111''), (''muted'', Str ''#333'')]),
               (''Text'', Str ''#999'')])
         (Some \<lparr>Options.prefix = Some ''my-prefix'', includeFallback = Some True,
                 Options.rootKeys = Some [''DEFAULT'']\<rparr>))) ''--my-prefix-text''
       = Some ''#999''
   \<and> map_of (declarationMap (toCSSVariables
         (Obj [(''text'', Obj [(''DEFAULT'', Str ''#111''), (''muted'', Str ''#333'')]),
               (''Text'', Str ''#999'')])
         (Some \<lparr>Options.prefix = Some ''my-prefix'', includeFallback = Some True,
                 Options.rootKeys = Some [''DEFAULT'']\<rparr>))) ''--my-prefix-text-muted''
       = Some ''#333''"
proof -
  let ?kvs = "[(''text'', Obj [(''DEFAULT'', Str ''#111''), (''muted'', Str ''#333'')]),
               (''Text'', Str ''#999'')]"
  let ?o = "Some \<lparr>Options.prefix = Some ''my-prefix'', includeFallback = Some True,
                   Options.rootKeys = Some [''DEFAULT'']\<rparr>"
  let ?p = "[''text'', ''DEFAULT'']"
  let ?r = "toCSSVariables (Obj ?kvs) ?o"
  have u: "uniqueKeys (Obj ?kvs)" by code_simp
  have at: "valueAt (Obj ?kvs) ?p = Some (Str ''#111'')" by code_simp
  have rks: "rootKeysOf ?o = [''DEFAULT'']" by code_simp
  have pre: "prefixOf ?o = ''my-prefix''" by code_simp
  have fb: "includeFallbackOf ?o" by code_simp
  have n: "generatedName [''DEFAULT''] ''my-prefix'' ?p = ''my-prefix-text''" by code_simp
  have n2: "generatedName [''DEFAULT''] ''my-prefix'' [''text'', ''muted''] = ''my-prefix-text-muted''"
    by code_simp
  have n3: "generatedName [''DEFAULT''] ''my-prefix'' [''Text''] = ''my-prefix-text''" by code_simp
  have np: "''__proto__'' \<notin> set ?p" by simp
  have l: "leaves ?kvs = [(?p, ''#111'')] @ ([''text'', ''muted''], ''#333'') # [([''Text''], ''#999'')]"
    by code_simp
  have l': "leaves ?kvs = [(?p, ''#111''), ([''text'', ''muted''], ''#333'')] @ ([''Text''], ''#999'') # []"
    by code_simp
  note T = toCSSVariables_declaration_reference [OF u _ at refl refl, of ?o, unfolded rks pre]
  have ne: "?p \<noteq> []" by simp
  from T [OF ne] np fb have a: "valueAt (variables ?r) ?p
      = Some (Str (''var(--'' @ generatedName [''DEFAULT''] ''my-prefix'' ?p @ '', '' @ ''#111'' @ '')''))"
    by simp
  from T [OF ne] have last: "\<forall>m ys q w zs.
               leaves (forIn (Obj ?kvs)) = ys @ (q, w) # zs
               \<and> generatedName [''DEFAULT''] ''my-prefix'' q = m
               \<and> (\<forall>qw \<in> set zs. generatedName [''DEFAULT''] ''my-prefix'' (fst qw) \<noteq> m)
               \<longrightarrow> map_of (declarationMap ?r) (''--'' @ m) = Some w"
    by (rule conjunct1 [OF conjunct2 [OF conjunct2]])
  have b: "map_of (declarationMap ?r) (''--'' @ ''my-prefix-text'') = Some ''#999''"
    by (rule last [rule_format, of "[(?p, ''#111''), ([''text'', ''muted''], ''#333'')]"
          "[''Text'']" "''#999''" "[]"]) (intro conjI; code_simp)
  have c: "map_of (declarationMap ?r) (''--'' @ ''my-prefix-text-muted'') = Some ''#333''"
    by (rule last [rule_format, of "[(?p, ''#111'')]" "[''text'', ''muted'']" "''#333''"
          "[([''Text''], ''#999'')]"]) (intro conjI; code_simp)
  from u at n np l n3 a b c show ?thesis by (simp add: n)
qed

text \<open>
  The declaration has no key \<^verbatim>\<open>a\<close> for the leaf \<^verbatim>\<open>a\<close> of \<^verbatim>\<open>{ a: "x" }\<close>, only
  \<^verbatim>\<open>--a\<close>; and for \<^verbatim>\<open>{ a: "x", A: "y" }\<close>, whose two leaves both get the name
  \<^verbatim>\<open>a\<close>, the one entry holds \<^verbatim>\<open>y\<close>, not the value \<^verbatim>\<open>x\<close> of the leaf \<^verbatim>\<open>a\<close>.
\<close>

theorem toCSSVariables_declaration_key_counterexample:
  "valueAt (Obj [(''a'', Str ''x'')]) [''a''] = Some (Str ''x'')
   \<and> generatedName (rootKeysOf None) (prefixOf None) [''a''] = ''a''
   \<and> map_of (declarationMap (toCSSVariables (Obj [(''a'', Str ''x'')]) None)) ''a'' = None
   \<and> declarationMap (toCSSVariables (Obj [(''a'', Str ''x'')]) None) = [(''--a'', ''x'')]
   \<and> valueAt (Obj [(''a'', Str ''x''), (''A'', Str ''y'')]) [''a''] = Some (Str ''x'')
   \<and> generatedName (rootKeysOf None) (prefixOf None) [''A''] = ''a''
   \<and> declarationMap (toCSSVariables (Obj [(''a'', Str ''x''), (''A'', Str ''y'')]) None)
       = [(''--a'', ''y'')]"
  by (intro conjI; code_simp)

text \<open>
  Claim C6. For a key in \<^verbatim>\<open>rootKeys\<close> the generated name is the current prefix as it
  stands: a string under such a key is declared under the prefix and referenced by it. For
  \<^verbatim>\<open>{ a: { DEFAULT: "x" } }\<close> with \<^verbatim>\<open>rootKeys = ["DEFAULT"]\<close> and the empty prefix the
  name of the leaf is \<^verbatim>\<open>a\<close>.
\<close>

theorem rootKey_collapses:
  "(key \<in> set rks \<longrightarrow>
      fullKey rks currentPrefix key = currentPrefix
      \<and> toCSSVariables_processObject fb rks ((key, Str v) # rest) currentPrefix (decl, parentObj)
          = toCSSVariables_processObject fb rks rest currentPrefix
              (AList.update (''--'' @ currentPrefix) v decl,
               assign key (Str (varRef fb currentPrefix v)) parentObj))
   \<and> generatedName [''DEFAULT''] [] [''a'', ''DEFAULT''] = ''a''
   \<and> toCSSVariables (Obj [(''a'', Obj [(''DEFAULT'', Str ''x'')])])
         (Some \<lparr>Options.prefix = Some [], includeFallback = None,
                 Options.rootKeys = Some [''DEFAULT'']\<rparr>)
       = \<lparr>declarationMap = [(''--a'', ''x'')],
          variables = Obj [(''a'', Obj [(''DEFAULT'', Str ''var(--a)'')])],
          raw = Obj [(''a'', Obj [(''DEFAULT'', Str ''x'')])]\<rparr>"
proof (intro conjI impI)
  assume "key \<in> set rks"
  then show "fullKey rks currentPrefix key = currentPrefix" by (simp add: fullKey_def)
  then show "toCSSVariables_processObject fb rks ((key, Str v) # rest) currentPrefix (decl, parentObj)
          = toCSSVariables_processObject fb rks rest currentPrefix
              (AList.update (''--'' @ currentPrefix) v decl,
               assign key (Str (varRef fb currentPrefix v)) parentObj)"
    by simp
next
  show "generatedName [''DEFAULT''] [] [''a'', ''DEFAULT''] = ''a''" by code_simp
  show "toCSSVariables (Obj [(''a'', Obj [(''DEFAULT'', Str ''x'')])])
         (Some \<lparr>Options.prefix = Some [], includeFallback = None,
                 Options.rootKeys = Some [''DEFAULT'']\<rparr>)
       = \<lparr>declarationMap = [(''--a'', ''x'')],
          variables = Obj [(''a'', Obj [(''DEFAULT'', Str ''var(--a)'')])],
          raw = Obj [(''a'', Obj [(''DEFAULT'', Str ''x'')])]\<rparr>" by code_simp
qed

theorem rootKey_collapses_witness:
  "''DEFAULT'' \<in> set [''DEFAULT'', ''base'']
   \<and> fullKey [''DEFAULT'', ''base''] ''ink'' ''DEFAULT'' = ''ink''
   \<and> toCSSVariables_processObject False [''DEFAULT'', ''base''] [(''DEFAULT'', Str ''black'')]
        ''ink'' ([], [])
      = ([(''--ink'', ''black'')], [(''DEFAULT'', Str ''var(--ink)'')])"
proof -
  have h: "''DEFAULT'' \<in> set [''DEFAULT'', ''base'']" by simp
  have v: "varRef False ''ink'' ''black'' = ''var(--ink)''" by code_simp
  have a: "assign ''DEFAULT'' (Str ''var(--ink)'') [] = [(''DEFAULT'', Str ''var(--ink)'')]"
    by code_simp
  from rootKey_collapses [of "''DEFAULT''" "[''DEFAULT'', ''base'']" "''ink''" False "''black''"
      "[]" "[]" "[]"] h v a
  show ?thesis by simp
qed

text \<open>
  At the top level with the empty prefix the name of a key \<open>k\<close> of \<^verbatim>\<open>rootKeys\<close> is the
  empty string: a string \<open>v\<close> under \<open>k\<close> is declared under \<^verbatim>\<open>--\<close>, and when \<open>k\<close> is not
  \<^verbatim>\<open>__proto__\<close> the leaf of \<^verbatim>\<open>variables\<close> under \<open>k\<close> is \<^verbatim>\<open>var(--)\<close>, or
  \<^verbatim>\<open>var(--, v)\<close> with \<^verbatim>\<open>includeFallback\<close>.
\<close>

lemma rootKey_at_top_level_own_key:
  assumes "distinct (map fst kvs)" and "(k, Str v) \<in> set kvs"
    and "k \<in> set (rootKeysOf options)" and "prefixOf options = []"
    and "r = toCSSVariables (Obj kvs) options"
  shows "''--'' \<in> fst ` set (declarationMap r)"
    and "k \<noteq> ''__proto__'' \<Longrightarrow>
         valueAt (variables r) [k]
           = Some (Str (if includeFallbackOf options then ''var(--, '' @ v @ '')''
                        else ''var(--)''))"
proof -
  let ?rks = "rootKeysOf options"
  from assms(1,2) have m: "map_of kvs k = Some (Str v)" by simp
  have fk: "fullKey ?rks [] k = []" using assms(3) by (simp add: fullKey_def)
  from leaves_entry_subset [OF assms(2)] have "([k], v) \<in> set (leaves kvs)" by simp
  then have "(''--'' @ generatedName ?rks [] (fst ([k], v)), snd ([k], v))
             \<in> set (map (\<lambda>kv. (''--'' @ fst kv, snd kv)) (emitted ?rks kvs []))"
    unfolding emitted_leaves by (force simp del: generatedName.simps)
  then have "(''--'', v) \<in> set (map (\<lambda>kv. (''--'' @ fst kv, snd kv)) (emitted ?rks kvs []))"
    using fk by simp
  then have "''--'' \<in> fst ` set (map (\<lambda>kv. (''--'' @ fst kv, snd kv)) (emitted ?rks kvs []))"
    by force
  then show "''--'' \<in> fst ` set (declarationMap r)"
    unfolding assms(5) toCSSVariables_declarationMap fst_set_fold_update
    by (simp add: assms(4))
  assume nk: "k \<noteq> ''__proto__''"
  have d: "distinct (map fst (forIn (Obj kvs)))" using assms(1) by simp
  from m nk have mf: "map_of (filter (\<lambda>kv. fst kv \<noteq> ''__proto__'') kvs) k = Some (Str v)"
    by (simp add: map_of_filter_other)
  have "valueAt (variables r) [k] = Some (mirrored (includeFallbackOf options) ?rks [] k (Str v))"
    by (simp add: assms(4,5) toCSSVariables_variables [OF d] map_of_map_keyed mf)
  then show "valueAt (variables r) [k]
             = Some (Str (if includeFallbackOf options then ''var(--, '' @ v @ '')''
                          else ''var(--)''))"
    by (simp add: mirrored_def fk varRef_def)
qed

text \<open>
  Claim C9. When a key \<open>k\<close> of the top level is in \<^verbatim>\<open>rootKeys\<close> and holds a string
  \<open>v\<close>, and the prefix is empty, the declaration has the key \<^verbatim>\<open>--\<close> and the leaf of
  \<^verbatim>\<open>variables\<close> under \<open>k\<close> is \<^verbatim>\<open>var(--)\<close>. The builder breaks this for the key
  \<^verbatim>\<open>__proto__\<close>: on \<^verbatim>\<open>JSON.parse('{"__proto__": "x"}')\<close> with
  \<^verbatim>\<open>rootKeys = ["__proto__"]\<close> the declaration has the key \<^verbatim>\<open>--\<close>, but the assignment
  \<^verbatim>\<open>parentObj['__proto__'] = 'var(--)'\<close> reaches the inherited setter and \<^verbatim>\<open>variables\<close>
  has no property at all, so no leaf under \<open>k\<close>.
\<close>

theorem rootKey_at_top_level_proto_key:
  "''__proto__'' \<in> set (rootKeysOf (Some \<lparr>Options.prefix = None, includeFallback = None,
                                           Options.rootKeys = Some [''__proto__'']\<rparr>))
   \<and> prefixOf (Some \<lparr>Options.prefix = None, includeFallback = None,
                       Options.rootKeys = Some [''__proto__'']\<rparr>) = []
   \<and> valueAt (Obj [(''__proto__'', Str ''x'')]) [''__proto__''] = Some (Str ''x'')
   \<and> toCSSVariables (Obj [(''__proto__'', Str ''x'')])
         (Some \<lparr>Options.prefix = None, includeFallback = None,
                 Options.rootKeys = Some [''__proto__'']\<rparr>)
       = \<lparr>declarationMap = [(''--'', ''x'')],
          variables = Obj [],
          raw = Obj [(''__proto__'', Str ''x'')]\<rparr>
   \<and> valueAt (variables (toCSSVariables (Obj [(''__proto__'', Str ''x'')])
         (Some \<lparr>Options.prefix = None, includeFallback = None,
                 Options.rootKeys = Some [''__proto__'']\<rparr>))) [''__proto__''] = None"
  by (intro conjI; code_simp)

section \<open>Properties of flattenVariables\<close>

lemma asPlainObject_SomeD: "asPlainObject v = Some kvs \<Longrightarrow> v = Obj kvs"
  by (cases v) (simp_all add: asPlainObject_def)

lemma asPlainObject_Obj [simp]: "asPlainObject (Obj kvs) = Some kvs"
  by (simp add: asPlainObject_def)

lemma asPlainObject_Str [simp]: "asPlainObject (Str s) = None"
  by (simp add: asPlainObject_def)

lemma flatten_processObject_fold:
  "flattenVariables_processObject sep pre rks kvs cp fl =
   fold (\<lambda>kv. assign (pre @ fst kv) (snd kv)) (flatEmitted sep rks kvs cp) fl"
proof (induction sep pre rks kvs cp fl rule: flattenVariables_processObject.induct)
  case (1 sep pre rks cp fl)
  show ?case by simp
next
  case (2 sep pre rks key v rest cp fl)
  show ?case
  proof (cases "asString v")
    case (Some s)
    from "2.IH"(4) [OF Some] show ?thesis using Some by simp
  next
    case None
    show ?thesis
    proof (cases "asPlainObject v")
      case (Some kvs)
      from "2.IH"(2) [OF None Some] "2.IH"(3) [OF None Some] show ?thesis
        using None Some by simp
    next
      case n: None
      from "2.IH"(1) [OF None n] show ?thesis using None n by simp
    qed
  qed
qed

lemma flatEmitted_plainLeaves:
  "flatEmitted sep rks kvs cp = map (\<lambda>qw. (flatName sep rks cp (fst qw), snd qw)) (plainLeaves kvs)"
proof (induction sep rks kvs cp rule: flatEmitted.induct)
  case (1 sep rks cp)
  show ?case by simp
next
  case (2 sep rks key v rest cp)
  show ?case
  proof (cases "asString v")
    case (Some s)
    with "2.IH"(2) show ?thesis by simp
  next
    case None
    show ?thesis
    proof (cases "asPlainObject v")
      case (Some kvs)
      with "2.IH"(1) [OF None Some] "2.IH"(2) None show ?thesis by (simp add: comp_def)
    next
      case n: None
      with "2.IH"(2) None show ?thesis by simp
    qed
  qed
qed

lemma plainLeaves_entry_subset:
  "(k, w) \<in> set kvs \<Longrightarrow>
   set (case asString w of Some s \<Rightarrow> [([k], s)]
        | None \<Rightarrow> (case asPlainObject w of
                     Some kvs' \<Rightarrow> map (\<lambda>qw. (k # fst qw, snd qw)) (plainLeaves kvs')
                   | None \<Rightarrow> []))
   \<subseteq> set (plainLeaves kvs)"
  by (induction kvs) auto

lemma plainValueAt_Cons_SomeD:
  "plainValueAt v (k # ks) = Some x \<Longrightarrow> \<exists>kvs. v = Obj kvs"
  by (cases "asPlainObject v") (auto dest: asPlainObject_SomeD)

lemma plainLeaves_complete:
  "p \<noteq> [] \<Longrightarrow> plainValueAt (Obj kvs) p = Some (Str s) \<Longrightarrow> (p, s) \<in> set (plainLeaves kvs)"
proof (induction p arbitrary: kvs)
  case Nil
  then show ?case by simp
next
  case (Cons k ks)
  from Cons.prems(2) obtain w where w: "map_of kvs k = Some w" and at: "plainValueAt w ks = Some (Str s)"
    by (auto split: option.splits)
  from w have mem: "(k, w) \<in> set kvs" by (rule map_of_SomeD)
  note sub = plainLeaves_entry_subset [OF mem]
  show ?case
  proof (cases ks)
    case Nil
    with at have "w = Str s" by simp
    with sub Nil show ?thesis by simp
  next
    case (Cons k' ks')
    with at obtain kvs' where o: "w = Obj kvs'"
      using plainValueAt_Cons_SomeD [of w k' ks' "Str s"] by auto
    have "ks \<noteq> []" using Cons by simp
    from Cons.IH [OF this at [unfolded o]] have "(ks, s) \<in> set (plainLeaves kvs')" .
    then have "(k # ks, s) \<in> set (map (\<lambda>qw. (k # fst qw, snd qw)) (plainLeaves kvs'))" by force
    with sub o show ?thesis by auto
  qed
qed

lemma plainValueAt_Obj_key:
  "plainValueAt (Obj kvs) (k # ks) = Some x \<Longrightarrow> k \<in> fst ` set kvs"
proof -
  assume "plainValueAt (Obj kvs) (k # ks) = Some x"
  then obtain w where "map_of kvs k = Some w" by (auto split: option.splits)
  then have "(k, w) \<in> set kvs" by (rule map_of_SomeD)
  then show ?thesis by force
qed

lemma plainLeaves_sound:
  "uniqueKeys (Obj kvs) \<Longrightarrow> (q, w) \<in> set (plainLeaves kvs) \<Longrightarrow>
   q \<noteq> [] \<and> plainValueAt (Obj kvs) q = Some (Str w)"
proof (induction kvs arbitrary: q w rule: plainLeaves.induct)
  case 1
  then show ?case by simp
next
  case (2 key v rest)
  from "2.prems"(1) have fresh: "key \<notin> fst ` set rest" and ur: "uniqueKeys (Obj rest)"
    and uv: "uniqueKeys v"
    by (auto simp: uniqueKeys_Obj)
  from "2.prems"(2) consider
      (here) "(q, w) \<in> set (case asString v of Some s \<Rightarrow> [([key], s)]
                | None \<Rightarrow> (case asPlainObject v of
                     Some kvs' \<Rightarrow> map (\<lambda>qw. (key # fst qw, snd qw)) (plainLeaves kvs')
                   | None \<Rightarrow> []))"
    | (later) "(q, w) \<in> set (plainLeaves rest)"
    by auto
  then show ?case
  proof cases
    case later
    from "2.IH"(2) [OF ur later] have q: "q \<noteq> []" "plainValueAt (Obj rest) q = Some (Str w)"
      by simp_all
    from q(1) obtain k ks where pk: "q = k # ks" by (cases q) auto
    from q(2) [unfolded pk] have "k \<in> fst ` set rest" by (rule plainValueAt_Obj_key)
    with fresh have "k \<noteq> key" by auto
    with q pk show ?thesis by simp
  next
    case here
    show ?thesis
    proof (cases "asString v")
      case (Some s')
      with here have "q = [key]" "w = s'" by auto
      moreover from Some have "v = Str s'" by (rule asString_SomeD)
      ultimately show ?thesis by simp
    next
      case None
      show ?thesis
      proof (cases "asPlainObject v")
        case n: None
        with here None show ?thesis by simp
      next
        case (Some kvs')
        then have v: "v = Obj kvs'" by (rule asPlainObject_SomeD)
        with here None obtain q' where q': "q = key # q'" "(q', w) \<in> set (plainLeaves kvs')"
          by auto
        from uv v have "uniqueKeys (Obj kvs')" by simp
        from "2.IH"(1) [OF None Some this q'(2)]
        have "plainValueAt (Obj kvs') q' = Some (Str w)" by simp
        with v q' show ?thesis by simp
      qed
    qed
  qed
qed

text \<open>The leaves of an object with each key once are the strings at its paths.\<close>

lemma plainLeaves_iff:
  "uniqueKeys (Obj kvs) \<Longrightarrow>
   ((q, w) \<in> set (plainLeaves kvs)) = (q \<noteq> [] \<and> plainValueAt (Obj kvs) q = Some (Str w))"
  using plainLeaves_sound [of kvs q w] plainLeaves_complete [of q kvs w] by blast

lemma flatName_nonempty_prefix:
  "cp \<noteq> [] \<Longrightarrow>
   flatName sep rks cp ks = cp @ concat (map (\<lambda>k. sep @ k) (filter (\<lambda>k. k \<notin> set rks) ks))"
  by (induction ks arbitrary: cp) (auto simp: flatKey_def)

lemma flatName_joined:
  "flatName sep rks [] p =
     (case dropWhile (\<lambda>k. k = []) p of
        [] \<Rightarrow> []
      | k # ks \<Rightarrow> k @ concat (map (\<lambda>k. sep @ k) (filter (\<lambda>k. k \<notin> set rks) ks)))"
proof (induction p)
  case Nil
  show ?case by simp
next
  case (Cons k ks)
  show ?case
  proof (cases "k = []")
    case True
    with Cons show ?thesis by (simp add: flatKey_def)
  next
    case False
    with flatName_nonempty_prefix [OF False, of sep rks ks] show ?thesis
      by (simp add: flatKey_def)
  qed
qed

text \<open>
  The result as a fold: the leaves in the order of the walk, each under its key, a later
  leaf overriding an earlier one of the same key, and no entry for the key \<^verbatim>\<open>__proto__\<close>.
\<close>

lemma flattenVariables_fold:
  "flattenVariables (Obj kvs) options
   = fold (\<lambda>kv. AList.update (fst kv) (snd kv))
       (filter (\<lambda>kv. fst kv \<noteq> ''__proto__'')
          (map (\<lambda>qw. (flatPrefixOf options
                        @ flatName (flatSeparatorOf options) (flatRootKeysOf options) [] (fst qw),
                      snd qw))
             (plainLeaves kvs))) []"
proof -
  have "fold (\<lambda>kv. assign (pre @ fst kv) (snd kv)) xs d
        = fold (\<lambda>kv. assign (fst kv) (snd kv)) (map (\<lambda>kv. (pre @ fst kv, snd kv)) xs) d"
    for pre :: string and xs :: "(string \<times> string) list" and d
    by (simp add: fold_map comp_def)
  then show ?thesis
    by (simp add: flattenVariables_def flatten_processObject_fold fold_assign_filter
        flatEmitted_plainLeaves comp_def)
qed

text \<open>
  Claim C5, as amended. Let \<open>p\<close> be the path, through plain objects only, of a string leaf
  \<open>v\<close>, and \<open>K\<close> its key: \<^verbatim>\<open>config.prefix\<close> and then the key the flattener builds
  along \<open>p\<close>, the first key of the path as it stands (empty keys in front of it are passed
  over), then the separator and the key for every further key that is not in
  \<^verbatim>\<open>rootKeys\<close>. The result has each key once, and the last write wins: under the key of
  any leaf, when that key is not \<^verbatim>\<open>__proto__\<close>, the result holds the value of the last
  leaf in the order of the walk that has this key. So when \<open>K\<close> is not \<^verbatim>\<open>__proto__\<close> the
  result has the key \<open>K\<close>, and holds \<open>v\<close> under it when every leaf with that key has the
  value \<open>v\<close>. Every entry of the result comes from such a leaf, and a property that holds
  an array adds nothing. The example of the specification evaluates as stated.
\<close>

theorem flattenVariables_leaf_entries:
  assumes "uniqueKeys obj" and "p \<noteq> []" and "plainValueAt obj p = Some (Str v)"
    and "sep = flatSeparatorOf options" and "pre = flatPrefixOf options"
    and "rks = flatRootKeysOf options" and "r = flattenVariables obj options"
  shows "distinct (map fst r)
     \<and> (\<forall>q w. ((q, w) \<in> set (plainLeaves (forIn obj)))
               = (q \<noteq> [] \<and> plainValueAt obj q = Some (Str w)))
     \<and> (\<forall>m ys q w zs.
           plainLeaves (forIn obj) = ys @ (q, w) # zs
           \<and> pre @ flatName sep rks [] q = m
           \<and> (\<forall>qw \<in> set zs. pre @ flatName sep rks [] (fst qw) \<noteq> m)
           \<and> m \<noteq> ''__proto__''
           \<longrightarrow> map_of r m = Some w)
     \<and> (pre @ flatName sep rks [] p \<noteq> ''__proto__'' \<longrightarrow>
           (\<exists>ys q w zs.
               plainLeaves (forIn obj) = ys @ (q, w) # zs
               \<and> flatName sep rks [] q = flatName sep rks [] p
               \<and> (\<forall>qw \<in> set zs. flatName sep rks [] (fst qw) \<noteq> flatName sep rks [] p)
               \<and> map_of r (pre @ flatName sep rks [] p) = Some w)
           \<and> ((\<forall>q w. q \<noteq> [] \<and> plainValueAt obj q = Some (Str w)
                  \<and> flatName sep rks [] q = flatName sep rks [] p \<longrightarrow> w = v)
                \<longrightarrow> map_of r (pre @ flatName sep rks [] p) = Some v))
     \<and> flatName sep rks [] p
         = (case dropWhile (\<lambda>k. k = []) p of
              [] \<Rightarrow> []
            | k # ks \<Rightarrow> k @ concat (map (\<lambda>k. sep @ k) (filter (\<lambda>k. k \<notin> set rks) ks)))
     \<and> (\<forall>(k, w) \<in> set r. \<exists>q. q \<noteq> [] \<and> plainValueAt obj q = Some (Str w)
            \<and> k = pre @ flatName sep rks [] q)
     \<and> flattenVariables_processObject sep pre rks ((key, Arr xs) # rest) cp fl
         = flattenVariables_processObject sep pre rks rest cp fl
     \<and> flattenVariables (Obj [(''text'', Obj [(''DEFAULT'', Str ''#111''), (''muted'', Str ''#333'')])])
           (Some \<lparr>separator = None, prefix = None, rootKeys = Some [''DEFAULT'']\<rparr>)
         = [(''text'', ''#111''), (''text-muted'', ''#333'')]"
proof -
  from assms(2) obtain k0 ks0 where p: "p = k0 # ks0" by (cases p) auto
  from assms(3) [unfolded p] obtain kvs where obj: "obj = Obj kvs"
    by (blast dest: plainValueAt_Cons_SomeD)
  let ?K = "\<lambda>q. pre @ flatName sep rks [] q"
  let ?g = "\<lambda>qw. (?K (fst qw), snd qw)"
  let ?L = "plainLeaves (forIn obj)"
  let ?F = "filter (\<lambda>kv. fst kv \<noteq> ''__proto__'') (map ?g ?L)"
  have L: "?L = plainLeaves kvs" by (simp add: obj)
  have r: "r = fold (\<lambda>kv. AList.update (fst kv) (snd kv)) ?F []"
    by (simp add: assms(4-7) obj flattenVariables_fold)
  from assms(1) obj have u: "uniqueKeys (Obj kvs)" by simp
  have dist: "distinct (map fst r)" unfolding r by (rule distinct_fold_update) simp
  have mo: "map_of r = map_of (rev ?F)" unfolding r by (simp only: map_of_fold_update) simp
  have iff: "\<forall>q w. ((q, w) \<in> set ?L) = (q \<noteq> [] \<and> plainValueAt obj q = Some (Str w))"
    unfolding L using plainLeaves_iff [OF u] by (simp add: obj)
  have last: "map_of r m = Some w"
    if split: "?L = ys @ (q, w) # zs" and name: "?K q = m"
      and later: "\<forall>qw \<in> set zs. ?K (fst qw) \<noteq> m" and np: "m \<noteq> ''__proto__''"
    for m ys q w zs
  proof -
    have "?F = filter (\<lambda>kv. fst kv \<noteq> ''__proto__'') (map ?g ys) @ (m, w)
                 # filter (\<lambda>kv. fst kv \<noteq> ''__proto__'') (map ?g zs)"
      unfolding split using name np by simp
    moreover from later
    have "m \<notin> fst ` set (filter (\<lambda>kv. fst kv \<noteq> ''__proto__'') (map ?g zs))" by auto
    ultimately have "map_of (rev ?F) m = Some w" by (rule map_of_rev_last)
    then show ?thesis unfolding mo .
  qed
  have origin: "\<exists>q. q \<noteq> [] \<and> plainValueAt obj q = Some (Str w) \<and> k = ?K q"
    if "map_of r k = Some w" for k w
  proof -
    from that have "(k, w) \<in> set ?F" unfolding mo by (auto dest: map_of_SomeD)
    then have "(k, w) \<in> set (map ?g ?L)" by simp
    then obtain q where q: "(q, w) \<in> set ?L" "k = ?K q" by auto
    with iff show ?thesis by blast
  qed
  from assms(2,3) iff have mem: "(p, v) \<in> set ?L" by simp
  have own: "(\<exists>ys q w zs.
               ?L = ys @ (q, w) # zs
               \<and> flatName sep rks [] q = flatName sep rks [] p
               \<and> (\<forall>qw \<in> set zs. flatName sep rks [] (fst qw) \<noteq> flatName sep rks [] p)
               \<and> map_of r (?K p) = Some w)
           \<and> ((\<forall>q w. q \<noteq> [] \<and> plainValueAt obj q = Some (Str w)
                  \<and> flatName sep rks [] q = flatName sep rks [] p \<longrightarrow> w = v)
                \<longrightarrow> map_of r (?K p) = Some v)"
    if np: "?K p \<noteq> ''__proto__''"
  proof -
    from mem have "\<exists>qw \<in> set ?L. flatName sep rks [] (fst qw) = flatName sep rks [] p" by force
    from split_list_last_prop [OF this]
    obtain ys qw zs where sp: "?L = ys @ qw # zs"
      "flatName sep rks [] (fst qw) = flatName sep rks [] p"
      "\<forall>z \<in> set zs. flatName sep rks [] (fst z) \<noteq> flatName sep rks [] p" by blast
    obtain q w where qw: "qw = (q, w)" by (cases qw)
    from last [of ys q w zs "?K p"] sp qw np
    have lw: "map_of r (?K p) = Some w" by simp
    from sp(1) qw have "(q, w) \<in> set ?L" by simp
    with iff have at: "q \<noteq> [] \<and> plainValueAt obj q = Some (Str w)" by simp
    have "map_of r (?K p) = Some v"
      if h: "\<forall>q w. q \<noteq> [] \<and> plainValueAt obj q = Some (Str w)
                  \<and> flatName sep rks [] q = flatName sep rks [] p \<longrightarrow> w = v"
    proof -
      from h [rule_format, of q w] at sp(2) qw have "w = v" by simp
      with lw show ?thesis by simp
    qed
    with sp qw lw show ?thesis by auto
  qed
  have every: "\<forall>(k, w) \<in> set r. \<exists>q. q \<noteq> [] \<and> plainValueAt obj q = Some (Str w)
            \<and> k = ?K q"
  proof (clarify)
    fix k w assume "(k, w) \<in> set r"
    with dist have "map_of r k = Some w" by simp
    then show "\<exists>q. q \<noteq> [] \<and> plainValueAt obj q = Some (Str w) \<and> k = ?K q"
      by (rule origin)
  qed
  have arr: "flattenVariables_processObject sep pre rks ((key, Arr xs) # rest) cp fl
         = flattenVariables_processObject sep pre rks rest cp fl"
    by (simp add: asString_def asPlainObject_def)
  have ex: "flattenVariables (Obj [(''text'', Obj [(''DEFAULT'', Str ''#111''), (''muted'', Str ''#333'')])])
           (Some \<lparr>separator = None, prefix = None, rootKeys = Some [''DEFAULT'']\<rparr>)
         = [(''text'', ''#111''), (''text-muted'', ''#333'')]"
    by code_simp
  from last have last': "\<forall>m ys q w zs.
           ?L = ys @ (q, w) # zs
           \<and> ?K q = m
           \<and> (\<forall>qw \<in> set zs. ?K (fst qw) \<noteq> m)
           \<and> m \<noteq> ''__proto__''
           \<longrightarrow> map_of r m = Some w" by blast
  from own have own': "?K p \<noteq> ''__proto__'' \<longrightarrow>
           (\<exists>ys q w zs.
               ?L = ys @ (q, w) # zs
               \<and> flatName sep rks [] q = flatName sep rks [] p
               \<and> (\<forall>qw \<in> set zs. flatName sep rks [] (fst qw) \<noteq> flatName sep rks [] p)
               \<and> map_of r (?K p) = Some w)
           \<and> ((\<forall>q w. q \<noteq> [] \<and> plainValueAt obj q = Some (Str w)
                  \<and> flatName sep rks [] q = flatName sep rks [] p \<longrightarrow> w = v)
                \<longrightarrow> map_of r (?K p) = Some v)" by blast
  show ?thesis
    apply (intro conjI)
    subgoal by (rule dist)
    subgoal by (rule iff)
    subgoal by (rule last')
    subgoal by (rule own')
    subgoal by (rule flatName_joined)
    subgoal by (rule every)
    subgoal by (rule arr)
    subgoal by (rule ex)
    done
qed

theorem flattenVariables_leaf_entries_witness:
  "uniqueKeys (Obj [(''text'', Obj [(''DEFAULT'', Str ''#111''), (''muted'', Str ''#333'')]),
                    (''list'', Arr [Str ''z'']), (''text_muted'', Str ''#999'')])
   \<and> plainValueAt (Obj [(''text'', Obj [(''DEFAULT'', Str ''#111''), (''muted'', Str ''#333'')]),
                         (''list'', Arr [Str ''z'']), (''text_muted'', Str ''#999'')])
        [''text'', ''muted''] = Some (Str ''#333'')
   \<and> ''p.'' @ flatName ''_'' [''DEFAULT''] [] [''text'', ''muted''] = ''p.text_muted''
   \<and> ''p.text_muted'' \<noteq> ''__proto__''
   \<and> plainLeaves [(''text'', Obj [(''DEFAULT'', Str ''#111''), (''muted'', Str ''#333'')]),
                   (''list'', Arr [Str ''z'']), (''text_muted'', Str ''#999'')]
       = [([''text'', ''DEFAULT''], ''#111''), ([''text'', ''muted''], ''#333'')]
         @ ([''text_muted''], ''#999'') # []
   \<and> ''p.'' @ flatName ''_'' [''DEFAULT''] [] [''text_muted''] = ''p.text_muted''
   \<and> map_of (flattenVariables
         (Obj [(''text'', Obj [(''DEFAULT'', Str ''#111''), (''muted'', Str ''#333'')]),
               (''list'', Arr [Str ''z'']), (''text_muted'', Str ''#999'')])
         (Some \<lparr>separator = Some ''_'', prefix = Some ''p.'', rootKeys = Some [''DEFAULT'']\<rparr>))
       ''p.text_muted'' = Some ''#999''
   \<and> map_of (flattenVariables
         (Obj [(''text'', Obj [(''DEFAULT'', Str ''#111''), (''muted'', Str ''#333'')]),
               (''list'', Arr [Str ''z'']), (''text_muted'', Str ''#999'')])
         (Some \<lparr>separator = Some ''_'', prefix = Some ''p.'', rootKeys = Some [''DEFAULT'']\<rparr>))
       ''p.text'' = Some ''#111''
   \<and> distinct (map fst (flattenVariables
         (Obj [(''text'', Obj [(''DEFAULT'', Str ''#111''), (''muted'', Str ''#333'')]),
               (''list'', Arr [Str ''z'']), (''text_muted'', Str ''#999'')])
         (Some \<lparr>separator = Some ''_'', prefix = Some ''p.'', rootKeys = Some [''DEFAULT'']\<rparr>)))"
proof -
  let ?kvs = "[(''text'', Obj [(''DEFAULT'', Str ''#111''), (''muted'', Str ''#333'')]),
               (''list'', Arr [Str ''z'']), (''text_muted'', Str ''#999'')]"
  let ?o = "Some \<lparr>separator = Some ''_'', prefix = Some ''p.'', rootKeys = Some [''DEFAULT'']\<rparr>"
  let ?p = "[''text'', ''muted'']"
  let ?r = "flattenVariables (Obj ?kvs) ?o"
  have u: "uniqueKeys (Obj ?kvs)" by code_simp
  have at: "plainValueAt (Obj ?kvs) ?p = Some (Str ''#333'')" by code_simp
  have sep: "flatSeparatorOf ?o = ''_''" by code_simp
  have pre: "flatPrefixOf ?o = ''p.''" by code_simp
  have rks: "flatRootKeysOf ?o = [''DEFAULT'']" by code_simp
  have n: "''p.'' @ flatName ''_'' [''DEFAULT''] [] ?p = ''p.text_muted''" by code_simp
  have n3: "''p.'' @ flatName ''_'' [''DEFAULT''] [] [''text_muted''] = ''p.text_muted''"
    by code_simp
  have np: "''p.text_muted'' \<noteq> ''__proto__''" by simp
  have l: "plainLeaves ?kvs
       = [([''text'', ''DEFAULT''], ''#111''), ([''text'', ''muted''], ''#333'')]
         @ ([''text_muted''], ''#999'') # []"
    by code_simp
  have ne: "?p \<noteq> []" by simp
  note T = flattenVariables_leaf_entries [OF u ne at sep [symmetric] pre [symmetric]
      rks [symmetric] refl, where key = "[]" and xs = "[]" and rest = "[]" and cp = "[]"
      and fl = "[]"]
  from T have d: "distinct (map fst ?r)"
    by (rule conjunct1)
  from T have last: "\<forall>m ys q w zs.
           plainLeaves (forIn (Obj ?kvs)) = ys @ (q, w) # zs
           \<and> ''p.'' @ flatName ''_'' [''DEFAULT''] [] q = m
           \<and> (\<forall>qw \<in> set zs. ''p.'' @ flatName ''_'' [''DEFAULT''] [] (fst qw) \<noteq> m)
           \<and> m \<noteq> ''__proto__''
           \<longrightarrow> map_of ?r m = Some w"
    by (rule conjunct1 [OF conjunct2 [OF conjunct2]])
  have a: "map_of ?r ''p.text_muted'' = Some ''#999''"
    by (rule last [rule_format, of "[([''text'', ''DEFAULT''], ''#111''), ([''text'', ''muted''], ''#333'')]"
          "[''text_muted'']" "''#999''" "[]"]) (intro conjI; code_simp)
  have b: "map_of ?r ''p.text'' = Some ''#111''"
    by (rule last [rule_format, of "[]" "[''text'', ''DEFAULT'']" "''#111''"
          "[([''text'', ''muted''], ''#333''), ([''text_muted''], ''#999'')]"])
       (intro conjI; code_simp)
  from u at n np l n3 a b d show ?thesis by blast
qed

text \<open>
  In \<^verbatim>\<open>{ a: { b: "x" }, "a-b": "y" }\<close> the leaf \<^verbatim>\<open>a.b\<close> has the key \<^verbatim>\<open>a-b\<close>, and so
  has the second leaf: the result has one entry for the two leaves, and it holds \<^verbatim>\<open>y\<close>.
\<close>

theorem flattenVariables_collision_counterexample:
  "plainValueAt (Obj [(''a'', Obj [(''b'', Str ''x'')]), (''a-b'', Str ''y'')]) [''a'', ''b'']
     = Some (Str ''x'')
   \<and> flatName (flatSeparatorOf None) (flatRootKeysOf None) [] [''a'', ''b''] = ''a-b''
   \<and> flattenVariables (Obj [(''a'', Obj [(''b'', Str ''x'')]), (''a-b'', Str ''y'')]) None
       = [(''a-b'', ''y'')]"
  by (intro conjI; code_simp)

text \<open>
  Claim C10. With the separator \<^verbatim>\<open>""\<close> the flattener returns what it returns with the
  separator \<^verbatim>\<open>"-"\<close>, whatever the other options are; the separator it joins with is
  never the empty string.
\<close>

theorem empty_separator_is_hyphen:
  "flattenVariables t (Some (opts\<lparr>separator := Some []\<rparr>))
     = flattenVariables t (Some (opts\<lparr>separator := Some ''-''\<rparr>))
   \<and> flatSeparatorOf (Some (opts\<lparr>separator := Some []\<rparr>)) = ''-''
   \<and> flatSeparatorOf options \<noteq> []"
proof (intro conjI)
  show "flattenVariables t (Some (opts\<lparr>separator := Some []\<rparr>))
     = flattenVariables t (Some (opts\<lparr>separator := Some ''-''\<rparr>))"
    by (simp add: flattenVariables_def flatSeparatorOf_def flatPrefixOf_def flatRootKeysOf_def
        strOr_def)
  show "flatSeparatorOf (Some (opts\<lparr>separator := Some []\<rparr>)) = ''-''"
    by (simp add: flatSeparatorOf_def strOr_def)
  show "flatSeparatorOf options \<noteq> []"
    by (simp add: flatSeparatorOf_def strOr_def split: option.splits)
qed

section \<open>Values that are neither strings nor objects\<close>

text \<open>
  Claim C4, as amended. The source has no \<^verbatim>\<open>throw\<close>, and no operation it applies to
  these values raises, so both functions return for every input; that is why the two
  functions of this theory have no error result. A value that is not a string is, for the
  builder, the object of the properties that \<^verbatim>\<open>for ... in\<close> finds on it: none for a
  number, a boolean or \<^verbatim>\<open>null\<close>, for which it assigns an empty object to
  \<^verbatim>\<open>parentObj[key]\<close> and nothing to the declaration, and the indices for an array. The flattener passes over every value
  that is neither a string nor a plain object: numbers, booleans, \<^verbatim>\<open>null\<close> and arrays.
\<close>

theorem malformed_values_are_coerced_or_skipped:
  "(asString v = None \<longrightarrow>
      toCSSVariables_processObject fb rks ((key, v) # rest) currentPrefix st
      = toCSSVariables_processObject fb rks ((key, Obj (forIn v)) # rest) currentPrefix st)
   \<and> forIn (Num i) = [] \<and> forIn (Bool b) = [] \<and> forIn Null = []
   \<and> toCSSVariables_processObject fb rks ((key, Obj []) # rest) currentPrefix (decl, parentObj)
      = toCSSVariables_processObject fb rks rest currentPrefix
          (decl, assign key (Obj []) parentObj)
   \<and> (asString v = None \<and> asPlainObject v = None \<longrightarrow>
      flattenVariables_processObject sep pre rks ((key, v) # rest) currentPrefix flattened
      = flattenVariables_processObject sep pre rks rest currentPrefix flattened)
   \<and> asPlainObject (Num i) = None \<and> asPlainObject (Bool b) = None
   \<and> asPlainObject Null = None \<and> asPlainObject (Arr xs) = None"
proof (intro conjI impI)
  assume "asString v = None"
  then show "toCSSVariables_processObject fb rks ((key, v) # rest) currentPrefix st
      = toCSSVariables_processObject fb rks ((key, Obj (forIn v)) # rest) currentPrefix st"
    by (cases st) simp
next
  assume "asString v = None \<and> asPlainObject v = None"
  then show "flattenVariables_processObject sep pre rks ((key, v) # rest) currentPrefix flattened
      = flattenVariables_processObject sep pre rks rest currentPrefix flattened"
    by simp
qed (simp_all add: forIn_def asPlainObject_def)

theorem malformed_values_are_coerced_or_skipped_witness:
  "asString (Arr [Str ''x'', Null]) = None \<and> asPlainObject (Arr [Str ''x'', Null]) = None
   \<and> toCSSVariables_processObject False [] [(''list'', Arr [Str ''x'', Null])] ''p'' ([], [])
      = toCSSVariables_processObject False [] [(''list'', Obj [(''0'', Str ''x''), (''1'', Null)])]
          ''p'' ([], [])
   \<and> toCSSVariables_processObject False [] [(''list'', Arr [Str ''x'', Null])] ''p'' ([], [])
      = ([(''--p-list-0'', ''x'')], [(''list'', Obj [(''0'', Str ''var(--p-list-0)''), (''1'', Obj [])])])
   \<and> flattenVariables_processObject ''-'' [] [] [(''list'', Arr [Str ''x'', Null]), (''a'', Str ''y'')] [] []
      = [(''a'', ''y'')]"
proof -
  let ?v = "Arr [Str ''x'', Null]"
  have s: "asString ?v = None" by (simp add: asString_def)
  have o: "asPlainObject ?v = None" by (simp add: asPlainObject_def)
  have f: "forIn ?v = [(''0'', Str ''x''), (''1'', Null)]" by code_simp
  note T = malformed_values_are_coerced_or_skipped [where v = ?v]
  from T [where fb = False and rks = "[]" and key = "''list''" and rest = "[]"
      and currentPrefix = "''p''" and st = "([], [])"] s
  have a: "toCSSVariables_processObject False [] [(''list'', ?v)] ''p'' ([], [])
      = toCSSVariables_processObject False [] [(''list'', Obj [(''0'', Str ''x''), (''1'', Null)])]
          ''p'' ([], [])"
    unfolding f by blast
  have b: "toCSSVariables_processObject False [] [(''list'', Obj [(''0'', Str ''x''), (''1'', Null)])]
          ''p'' ([], [])
      = ([(''--p-list-0'', ''x'')], [(''list'', Obj [(''0'', Str ''var(--p-list-0)''), (''1'', Obj [])])])"
    by code_simp
  from T [where sep = "''-''" and pre = "[]" and rks = "[]" and key = "''list''"
      and rest = "[(''a'', Str ''y'')]" and currentPrefix = "[]" and flattened = "[]"] s o
  have "flattenVariables_processObject ''-'' [] [] [(''list'', ?v), (''a'', Str ''y'')] [] []
      = flattenVariables_processObject ''-'' [] [] [(''a'', Str ''y'')] [] []"
    by blast
  also have "\<dots> = [(''a'', ''y'')]" by code_simp
  finally have c: "flattenVariables_processObject ''-'' [] [] [(''list'', ?v), (''a'', Str ''y'')] [] []
      = [(''a'', ''y'')]" .
  from s o a b c show ?thesis by simp
qed

text \<open>
  Both calls return: the builder with an empty object for the number, for \<^verbatim>\<open>null\<close> and for
  the boolean and with the array walked by its indices, the flattener with the one string
  that is left.
\<close>

theorem no_fail_fast_counterexample:
  "toCSSVariables (Obj [(''a'', Num 1), (''b'', Null), (''c'', Bool True), (''d'', Arr [Str ''x''])]) None
     = \<lparr>declarationMap = [(''--d-0'', ''x'')],
        variables = Obj [(''a'', Obj []), (''b'', Obj []), (''c'', Obj []),
                         (''d'', Obj [(''0'', Str ''var(--d-0)'')])],
        raw = Obj [(''a'', Num 1), (''b'', Null), (''c'', Bool True), (''d'', Arr [Str ''x''])]\<rparr>
   \<and> flattenVariables
        (Obj [(''a'', Num 1), (''b'', Null), (''c'', Bool True), (''d'', Arr [Str ''x'']),
              (''e'', Str ''y'')]) None
     = [(''e'', ''y'')]"
  by (intro conjI; code_simp)

section \<open>The input is left as it was\<close>

lemma length_setProp [simp]: "length (setProp s a key v) = length s"
  by (simp add: setProp_def)

lemma nth_setProp_other: "b \<noteq> a \<Longrightarrow> setProp s a key v ! b = s ! b"
  by (simp add: setProp_def)

lemma processObject_store_frame:
  "processObject_store fuel fb rks subObj keys cp par st = Some st' \<Longrightarrow>
   length (fst st) \<le> length (fst st')
   \<and> (\<forall>a < length (fst st). a \<noteq> par \<longrightarrow> fst st' ! a = fst st ! a)"
proof (induction fuel fb rks subObj keys cp par st arbitrary: st'
    rule: processObject_store.induct)
  case (1 fuel fb rks subObj cp par st)
  then show ?case by simp
next
  case (2 fuel fb rks subObj key keys cp par s decl)
  show ?case
  proof (cases "hAsString (getProp s subObj key)")
    case (Some str)
    with "2.prems" have
      "processObject_store fuel fb rks subObj keys cp par
         (setProp s par key (HStr (varRef fb (fullKey rks cp key) str)),
          assign (''--'' @ fullKey rks cp key) str decl) = Some st'" by simp
    from "2.IH"(3) [OF Some this] show ?thesis by (simp add: nth_setProp_other)
  next
    case None
    show ?thesis
    proof (cases fuel)
      case 0
      with None "2.prems" show ?thesis by simp
    next
      case (Suc n)
      let ?s2 = "setProp (s @ [[]]) par key (HRef (length s))"
      let ?inner = "processObject_store n fb rks (getProp ?s2 subObj key)
          (forInKeys ?s2 (getProp ?s2 subObj key)) (childPrefix rks cp key) (length s) (?s2, decl)"
      from None Suc "2.prems" obtain x2 where inner: "?inner = Some x2"
        and rest: "processObject_store fuel fb rks subObj keys cp par x2 = Some st'"
        by (auto split: option.splits)
      from "2.IH"(1) [OF None Suc inner]
      have i1: "Suc (length s) \<le> length (fst x2)"
        and i2: "\<forall>a < Suc (length s). a \<noteq> length s \<longrightarrow> fst x2 ! a = ?s2 ! a" by simp_all
      from "2.IH"(2) [OF None Suc inner rest]
      have r1: "length (fst x2) \<le> length (fst st')"
        and r2: "\<forall>a < length (fst x2). a \<noteq> par \<longrightarrow> fst st' ! a = fst x2 ! a" by simp_all
      have "fst st' ! a = s ! a" if "a < length s" "a \<noteq> par" for a
      proof -
        from that i1 r2 have "fst st' ! a = fst x2 ! a" by simp
        also from that i2 have "\<dots> = ?s2 ! a" by simp
        also from that have "\<dots> = s ! a" by (simp add: nth_setProp_other nth_append)
        finally show ?thesis .
      qed
      with i1 r1 show ?thesis by simp
    qed
  qed
qed

lemma toCSSVariables_store_frame:
  "toCSSVariables_store fuel obj options s = Some (s', out) \<Longrightarrow>
   rawS out = obj \<and> take (length s) s' = s"
proof -
  assume a: "toCSSVariables_store fuel obj options s = Some (s', out)"
  then obtain decl where run: "processObject_store fuel (includeFallbackOf options)
       (rootKeysOf options) obj (forInKeys (s @ [[]]) obj) (prefixOf options) (length s)
       (s @ [[]], []) = Some (s', decl)"
    and out: "out = \<lparr>declarationMapS = decl, variablesS = HRef (length s), rawS = obj\<rparr>"
    by (auto simp: toCSSVariables_store_def split: option.splits)
  from processObject_store_frame [OF run]
  have l: "Suc (length s) \<le> length s'"
    and f: "\<forall>a < Suc (length s). a \<noteq> length s \<longrightarrow> s' ! a = (s @ [[]]) ! a" by simp_all
  have "take (length s) s' = s"
  proof (rule nth_equalityI)
    show "length (take (length s) s') = length s" using l by simp
  next
    fix i assume "i < length (take (length s) s')"
    then have i: "i < length s" by simp
    with f have "s' ! i = (s @ [[]]) ! i" by simp
    with i show "take (length s) s' ! i = s ! i" by (simp add: nth_append)
  qed
  with out show ?thesis by simp
qed

lemma repr_Str: "repr lo hi s hv (Str str) = (hv = HStr str)"
  by (simp add: repr.simps [of lo hi s hv "Str str"])

lemma repr_scalar:
  "repr lo hi s hv (Num i) = (hv = HNum i)"
  "repr lo hi s hv (Bool b) = (hv = HBool b)"
  "repr lo hi s hv Null = (hv = HNull)"
  by (simp_all add: repr.simps [of lo hi s hv])

lemma repr_container:
  "isContainer t \<Longrightarrow>
   repr lo hi s hv t =
     (\<exists>a. hv = HRef a \<and> lo \<le> a \<and> a < hi \<and> hi \<le> length s \<and> distinct (map fst (s ! a))
        \<and> list_all2 (\<lambda>hp kv. fst hp = fst kv \<and> repr lo hi s (snd hp) (snd kv))
             (s ! a) (forIn t))"
proof (cases t)
  case (Arr xs)
  show ?thesis unfolding Arr
    by (cases hv) (simp_all add: repr.simps [of lo hi s _ "Arr xs"])
next
  case (Obj kvs)
  show ?thesis unfolding Obj
    by (cases hv) (simp_all add: repr.simps [of lo hi s _ "Obj kvs"])
qed (simp_all add: isContainer_def)

lemma jsval_kinds:
  obtains (string) str where "t = Str str"
  | (scalar) "t = Null \<or> (\<exists>i. t = Num i) \<or> (\<exists>b. t = Bool b)"
  | (container) "isContainer t"
  by (cases t) (auto simp: isContainer_def)

lemma isContainer_asString: "isContainer t \<Longrightarrow> asString t = None"
  by (cases t) (simp_all add: isContainer_def asString_def)

lemma repr_transfer:
  "repr lo hi s hv t \<Longrightarrow> lo' \<le> lo \<Longrightarrow> hi \<le> hi' \<Longrightarrow> hi' \<le> length s' \<Longrightarrow>
   (\<forall>a. lo \<le> a \<and> a < hi \<longrightarrow> s' ! a = s ! a) \<Longrightarrow> repr lo' hi' s' hv t"
proof (induction t arbitrary: hv rule: measure_induct_rule [of size])
  case (less t)
  show ?case
  proof (cases t rule: jsval_kinds)
    case (string str)
    with less.prems show ?thesis by (simp add: repr_Str)
  next
    case scalar
    with less.prems show ?thesis by (auto simp: repr_scalar)
  next
    case container
    with less.prems(1) obtain a where a: "hv = HRef a" "lo \<le> a" "a < hi" "hi \<le> length s"
      "distinct (map fst (s ! a))"
      "list_all2 (\<lambda>hp kv. fst hp = fst kv \<and> repr lo hi s (snd hp) (snd kv)) (s ! a) (forIn t)"
      by (auto simp: repr_container)
    from a less.prems have same: "s' ! a = s ! a" by simp
    have "list_all2 (\<lambda>hp kv. fst hp = fst kv \<and> repr lo' hi' s' (snd hp) (snd kv)) (s ! a) (forIn t)"
    proof (rule list_all2_all_nthI)
      from a(6) show "length (s ! a) = length (forIn t)" by (rule list_all2_lengthD)
    next
      fix i assume i: "i < length (s ! a)"
      with a(6) have r: "repr lo hi s (snd (s ! a ! i)) (snd (forIn t ! i))"
        and f: "fst (s ! a ! i) = fst (forIn t ! i)" by (auto dest: list_all2_nthD)
      from i a(6) have "i < length (forIn t)" by (simp add: list_all2_lengthD)
      then have "snd (forIn t ! i) \<in> snd ` set (forIn t)" by simp
      with container have "size (snd (forIn t ! i)) < size t"
        by (simp add: size_forIn isContainer_asString)
      from less.IH [OF this r less.prems(2-5)] f
      show "fst (s ! a ! i) = fst (forIn t ! i) \<and> repr lo' hi' s' (snd (s ! a ! i)) (snd (forIn t ! i))"
        by simp
    qed
    with a same less.prems container show ?thesis by (auto simp: repr_container)
  qed
qed

lemma getProp_agree:
  "stable n hv \<Longrightarrow> n \<le> length s \<Longrightarrow> n \<le> length s' \<Longrightarrow> (\<forall>a<n. s' ! a = s ! a) \<Longrightarrow>
   getProp s' hv key = getProp s hv key"
  by (cases hv) (simp_all add: getProp_def stable_def propsAt_def)

lemma forInKeys_agree:
  "stable n hv \<Longrightarrow> n \<le> length s \<Longrightarrow> n \<le> length s' \<Longrightarrow> (\<forall>a<n. s' ! a = s ! a) \<Longrightarrow>
   forInKeys s' hv = forInKeys s hv"
  by (cases hv) (simp_all add: forInKeys_def stable_def propsAt_def)

lemma repr_hAsString: "repr lo hi s hv v \<Longrightarrow> hAsString hv = asString v"
  by (cases v rule: jsval_kinds)
     (auto simp: repr_Str repr_scalar repr_container hAsString_def asString_def
        dest: isContainer_asString)

lemma repr_stable: "repr lo hi s hv v \<Longrightarrow> stable hi hv"
  by (cases v rule: jsval_kinds)
     (auto simp: repr_Str repr_scalar repr_container stable_def)

lemma repr_forInKeys:
  assumes "repr lo hi s hv v" and "asString v = None"
  shows "forInKeys s hv = map fst (forIn v)"
proof (cases v rule: jsval_kinds)
  case (string str)
  with assms show ?thesis by simp
next
  case scalar
  with assms show ?thesis by (auto simp: repr_scalar forInKeys_def forIn_def)
next
  case container
  with assms(1) obtain a where a: "hv = HRef a" "a < hi" "hi \<le> length s"
    "list_all2 (\<lambda>hp kv. fst hp = fst kv \<and> repr lo hi s (snd hp) (snd kv)) (s ! a) (forIn v)"
    by (auto simp: repr_container)
  from a(4) have "map fst (s ! a) = map fst (forIn v)"
    by (induction rule: list_all2_induct) simp_all
  with a show ?thesis by (simp add: forInKeys_def propsAt_def)
qed

lemma map_of_list_all2:
  "list_all2 (\<lambda>hp kv. fst hp = fst kv \<and> R (snd hp) (snd kv)) al kvs \<Longrightarrow>
   distinct (map fst al) \<Longrightarrow> (key, v) \<in> set kvs \<Longrightarrow>
   \<exists>hv. map_of al key = Some hv \<and> R hv v"
proof (induction rule: list_all2_induct)
  case Nil
  then show ?case by simp
next
  case (Cons hp al kv kvs)
  from Cons.hyps(2) have keys: "map fst al = map fst kvs"
    by (induction rule: list_all2_induct) simp_all
  show ?case
  proof (cases "(key, v) = kv")
    case True
    with Cons.hyps(1) show ?thesis by (cases hp) auto
  next
    case False
    with Cons.prems have mem: "(key, v) \<in> set kvs" by auto
    then have "key \<in> fst ` set kvs" by force
    then have "key \<in> set (map fst al)" using keys by simp
    with Cons.prems(1) have "key \<noteq> fst hp" by force
    with Cons.IH mem Cons.prems(1) show ?thesis by (cases hp) auto
  qed
qed

lemma repr_getProp:
  assumes "repr lo hi s hv v" and "asString v = None" and "(key, v') \<in> set (forIn v)"
  shows "repr lo hi s (getProp s hv key) v'"
proof (cases v rule: jsval_kinds)
  case (string str)
  with assms show ?thesis by simp
next
  case scalar
  with assms show ?thesis by (auto simp: forIn_def)
next
  case container
  with assms(1) obtain a where a: "hv = HRef a" "a < hi" "hi \<le> length s"
    "distinct (map fst (s ! a))"
    "list_all2 (\<lambda>hp kv. fst hp = fst kv \<and> repr lo hi s (snd hp) (snd kv)) (s ! a) (forIn v)"
    by (auto simp: repr_container)
  from map_of_list_all2 [OF a(5,4) assms(3)] obtain hv' where
    "map_of (s ! a) key = Some hv'" "repr lo hi s hv' v'" by blast
  with a show ?thesis by (simp add: getProp_def propsAt_def)
qed

lemma list_all2_update:
  "list_all2 (\<lambda>hp kv. fst hp = fst kv \<and> R (snd hp) (snd kv)) al po \<Longrightarrow> R hv t \<Longrightarrow>
   list_all2 (\<lambda>hp kv. fst hp = fst kv \<and> R (snd hp) (snd kv))
     (AList.update k hv al) (AList.update k t po)"
  by (induction rule: list_all2_induct) auto

lemma list_all2_assign:
  "list_all2 (\<lambda>hp kv. fst hp = fst kv \<and> R (snd hp) (snd kv)) al po \<Longrightarrow> R hv t \<Longrightarrow>
   list_all2 (\<lambda>hp kv. fst hp = fst kv \<and> R (snd hp) (snd kv)) (assign k hv al) (assign k t po)"
  by (simp add: assign_def list_all2_update)

lemma built_transfer:
  assumes "built s par po" and "length s \<le> length s'"
    and "\<forall>a. Suc par \<le> a \<and> a < length s \<longrightarrow> s' ! a = s ! a"
  shows "list_all2 (\<lambda>hp kv. fst hp = fst kv \<and> repr (Suc par) (length s') s' (snd hp) (snd kv))
           (s ! par) po"
proof (rule list_all2_mono)
  from assms(1) show "list_all2 (\<lambda>hp kv. fst hp = fst kv \<and> repr (Suc par) (length s) s (snd hp) (snd kv))
           (s ! par) po" by (simp add: built_def)
next
  fix hp kv
  assume "fst hp = fst kv \<and> repr (Suc par) (length s) s (snd hp) (snd kv)"
  with repr_transfer [of "Suc par" "length s" s "snd hp" "snd kv" "Suc par" "length s'" s'] assms(2,3)
  show "fst hp = fst kv \<and> repr (Suc par) (length s') s' (snd hp) (snd kv)" by simp
qed

lemma processObject_store_refines:
  "n \<le> par \<Longrightarrow> par < length s \<Longrightarrow> weight kvs \<le> fuel \<Longrightarrow> stable n subObj \<Longrightarrow>
   (\<forall>kv \<in> set kvs. repr 0 n s (getProp s subObj (fst kv)) (snd kv)) \<Longrightarrow>
   built s par (snd st) \<Longrightarrow>
   \<exists>s'. processObject_store fuel fb rks subObj (map fst kvs) cp par (s, fst st)
          = Some (s', fst (toCSSVariables_processObject fb rks kvs cp st))
        \<and> built s' par (snd (toCSSVariables_processObject fb rks kvs cp st))"
proof (induction fb rks kvs cp st arbitrary: s fuel par subObj
    rule: toCSSVariables_processObject.induct)
  case (1 fb rks cp st)
  then show ?case by simp
next
  case (2 fb rks key v rest cp decl po)
  let ?hv = "getProp s subObj key"
  from "2.prems"(5) have rv: "repr 0 n s ?hv v"
    and rrest: "\<forall>kv \<in> set rest. repr 0 n s (getProp s subObj (fst kv)) (snd kv)" by simp_all
  from "2.prems"(1,2) have nlen: "n \<le> length s" by simp
  from "2.prems"(6) have b: "built s par po" by simp
  from "2.prems"(3) have wrest: "weight rest \<le> fuel" by (simp add: weight_Cons)
  have keep: "\<forall>kv \<in> set rest. repr 0 n s' (getProp s' subObj (fst kv)) (snd kv)"
    if len: "length s \<le> length s'" and ag: "\<forall>a<n. s' ! a = s ! a" for s'
  proof
    fix kv assume "kv \<in> set rest"
    with rrest have r: "repr 0 n s (getProp s subObj (fst kv)) (snd kv)" by simp
    from len nlen have nl': "n \<le> length s'" by simp
    from getProp_agree [OF "2.prems"(4) nlen nl' ag]
    have g: "getProp s' subObj (fst kv) = getProp s subObj (fst kv)" .
    from repr_transfer [OF r le_refl le_refl nl'] ag
    show "repr 0 n s' (getProp s' subObj (fst kv)) (snd kv)" unfolding g by simp
  qed
  show ?case
  proof (cases "asString v")
    case (Some str)
    with repr_hAsString [OF rv] have hs: "hAsString ?hv = Some str" by simp
    let ?ref = "varRef fb (fullKey rks cp key) str"
    let ?s1 = "setProp s par key (HStr ?ref)"
    let ?d1 = "assign (''--'' @ fullKey rks cp key) str decl"
    let ?po1 = "assign key (Str ?ref) po"
    have s1par: "?s1 ! par = assign key (HStr ?ref) (s ! par)"
      using "2.prems"(2) by (simp add: setProp_def propsAt_def)
    have ag1: "\<forall>a. a \<noteq> par \<longrightarrow> ?s1 ! a = s ! a" by (simp add: nth_setProp_other)
    from built_transfer [OF b, of ?s1] ag1
    have "list_all2 (\<lambda>hp kv. fst hp = fst kv \<and> repr (Suc par) (length ?s1) ?s1 (snd hp) (snd kv))
           (s ! par) po" by simp
    from list_all2_assign [OF this, of "HStr ?ref" "Str ?ref" key] b
    have b1: "built ?s1 par ?po1"
      unfolding built_def s1par by (simp add: repr_Str distinct_assign)
    from "2.prems"(1,2) ag1 have "\<forall>a<n. ?s1 ! a = s ! a" by simp
    from keep [OF _ this] have k1: "\<forall>kv \<in> set rest. repr 0 n ?s1 (getProp ?s1 subObj (fst kv)) (snd kv)"
      by simp
    from "2.IH"(3) [OF Some "2.prems"(1) _ wrest "2.prems"(4) k1] b1 "2.prems"(2)
    obtain s' where
      "processObject_store fuel fb rks subObj (map fst rest) cp par (?s1, ?d1)
         = Some (s', fst (toCSSVariables_processObject fb rks rest cp (?d1, ?po1)))"
      "built s' par (snd (toCSSVariables_processObject fb rks rest cp (?d1, ?po1)))"
      by auto
    with Some hs show ?thesis by simp
  next
    case None
    with repr_hAsString [OF rv] have hs: "hAsString ?hv = None" by simp
    from "2.prems"(3) obtain fuel' where fuel: "fuel = Suc fuel'"
      by (cases fuel) (simp_all add: weight_Cons)
    from "2.prems"(3) weight_forIn [OF None] fuel have wchild: "weight (forIn v) \<le> fuel'"
      by (simp add: weight_Cons)
    let ?a = "length s"
    let ?s2 = "setProp (s @ [[]]) par key (HRef ?a)"
    let ?cp' = "childPrefix rks cp key"
    obtain d1 child where pure: "toCSSVariables_processObject fb rks (forIn v) ?cp' (decl, []) = (d1, child)"
      by (cases "toCSSVariables_processObject fb rks (forIn v) ?cp' (decl, [])")
    let ?po2 = "assign key (Obj child) po"
    have ag2: "\<forall>a<length s. a \<noteq> par \<longrightarrow> ?s2 ! a = s ! a"
      by (simp add: nth_setProp_other nth_append)
    have s2par: "?s2 ! par = assign key (HRef ?a) (s ! par)"
      using "2.prems"(2) by (simp add: setProp_def propsAt_def nth_append)
    have s2a: "?s2 ! ?a = []" using "2.prems"(2) by (simp add: nth_setProp_other)
    from "2.prems"(1,2) ag2 have agn2: "\<forall>a<n. ?s2 ! a = s ! a" by simp
    have st: "stable n ?hv" using rv by (rule repr_stable)
    have nl2: "n \<le> length ?s2" using nlen by simp
    have hv2: "getProp ?s2 subObj key = ?hv"
      by (rule getProp_agree [OF "2.prems"(4) nlen nl2 agn2])
    have keys: "forInKeys ?s2 ?hv = map fst (forIn v)"
      using forInKeys_agree [OF st nlen nl2 agn2] repr_forInKeys [OF rv None] by simp
    have kchild: "\<forall>kv \<in> set (forIn v). repr 0 n ?s2 (getProp ?s2 ?hv (fst kv)) (snd kv)"
    proof
      fix kv assume "kv \<in> set (forIn v)"
      then have "(fst kv, snd kv) \<in> set (forIn v)" by simp
      from repr_getProp [OF rv None this] have r: "repr 0 n s (getProp s ?hv (fst kv)) (snd kv)" .
      from getProp_agree [OF st nlen nl2 agn2]
      have g: "getProp ?s2 ?hv (fst kv) = getProp s ?hv (fst kv)" .
      from repr_transfer [OF r le_refl le_refl nl2] agn2
      show "repr 0 n ?s2 (getProp ?s2 ?hv (fst kv)) (snd kv)" unfolding g by simp
    qed
    have b2: "built ?s2 ?a (snd (decl, []))" by (simp add: built_def s2a)
    from "2.IH"(1) [OF None nlen _ wchild st kchild b2]
    obtain s3 where inner: "processObject_store fuel' fb rks ?hv (map fst (forIn v)) ?cp' ?a (?s2, decl)
         = Some (s3, d1)"
      and b3: "built s3 ?a child"
      using pure by auto
    from processObject_store_frame [OF inner]
    have l3: "Suc (length s) \<le> length s3"
      and f3: "\<forall>a<Suc (length s). a \<noteq> length s \<longrightarrow> s3 ! a = ?s2 ! a" by simp_all
    have ag3: "\<forall>a<length s. a \<noteq> par \<longrightarrow> s3 ! a = s ! a" using f3 ag2 by simp
    have s3par: "s3 ! par = assign key (HRef ?a) (s ! par)"
      using f3 "2.prems"(2) s2par by simp
    from "2.prems"(1,2) ag3 have agn3: "\<forall>a<n. s3 ! a = s ! a" by simp
    from l3 have "length s \<le> length s3" by simp
    from keep [OF this agn3]
    have k3: "\<forall>kv \<in> set rest. repr 0 n s3 (getProp s3 subObj (fst kv)) (snd kv)" .
    have old: "list_all2 (\<lambda>hp kv. fst hp = fst kv \<and> repr (Suc par) (length s3) s3 (snd hp) (snd kv))
           (s ! par) po"
      using built_transfer [OF b \<open>length s \<le> length s3\<close>] ag3 by simp
    have "list_all2 (\<lambda>hp kv. fst hp = fst kv \<and> repr (Suc par) (length s3) s3 (snd hp) (snd kv))
           (s3 ! ?a) child"
    proof (rule list_all2_mono)
      from b3 show "list_all2 (\<lambda>hp kv. fst hp = fst kv \<and> repr (Suc ?a) (length s3) s3 (snd hp) (snd kv))
           (s3 ! ?a) child" by (simp add: built_def)
    next
      fix hp kv
      assume "fst hp = fst kv \<and> repr (Suc ?a) (length s3) s3 (snd hp) (snd kv)"
      with repr_transfer [of "Suc ?a" "length s3" s3 "snd hp" "snd kv" "Suc par" "length s3" s3]
        "2.prems"(2)
      show "fst hp = fst kv \<and> repr (Suc par) (length s3) s3 (snd hp) (snd kv)" by simp
    qed
    with b3 l3 "2.prems"(2) have new: "repr (Suc par) (length s3) s3 (HRef ?a) (Obj child)"
      by (simp add: repr_container isContainer_def built_def)
    from list_all2_assign [OF old, of "HRef ?a" "Obj child" key] new b
    have b4: "built s3 par (snd (d1, ?po2))"
      unfolding built_def s3par by (simp add: distinct_assign)
    from l3 "2.prems"(2) have "par < length s3" by simp
    from "2.IH"(2) [OF None pure [symmetric] "2.prems"(1) this wrest "2.prems"(4) k3 b4]
    obtain s' where
      "processObject_store fuel fb rks subObj (map fst rest) cp par (s3, d1)
         = Some (s', fst (toCSSVariables_processObject fb rks rest cp (d1, ?po2)))"
      "built s' par (snd (toCSSVariables_processObject fb rks rest cp (d1, ?po2)))"
      by auto
    with None hs fuel keys inner pure hv2 show ?thesis by simp
  qed
qed

text \<open>
  Claim C7. Whenever \<^verbatim>\<open>toCSSVariables\<close> returns, \<^verbatim>\<open>raw\<close> is the reference it was given
  and every object that was in the store before the call is as it was: the call writes to
  objects it has allocated itself and to no other. For an input that is a tree the call
  does return: the input represents the same tree afterwards, and the declaration and the
  object \<^verbatim>\<open>variables\<close> are the ones of the functional model.
\<close>

theorem toCSSVariables_store_input_untouched:
  "(toCSSVariables_store fuel obj options s = Some (s', out) \<longrightarrow>
      rawS out = obj \<and> take (length s) s' = s)
   \<and> (repr 0 (length s) s obj t \<and> asString t = None \<and> weight (forIn t) \<le> fuel \<longrightarrow>
        (\<exists>s''. toCSSVariables_store fuel obj options s
                = Some (s'', \<lparr>declarationMapS = declarationMap (toCSSVariables t options),
                              variablesS = HRef (length s), rawS = obj\<rparr>)
             \<and> take (length s) s'' = s
             \<and> repr 0 (length s) s'' obj t
             \<and> repr 0 (length s'') s'' (HRef (length s)) (variables (toCSSVariables t options))))"
proof (rule conjI; rule impI)
  assume "toCSSVariables_store fuel obj options s = Some (s', out)"
  then show "rawS out = obj \<and> take (length s) s' = s" by (rule toCSSVariables_store_frame)
next
  assume h: "repr 0 (length s) s obj t \<and> asString t = None \<and> weight (forIn t) \<le> fuel"
  let ?n = "length s" and ?s0 = "s @ [[]]"
  let ?fb = "includeFallbackOf options" and ?rks = "rootKeysOf options"
    and ?pre = "prefixOf options"
  let ?pure = "toCSSVariables_processObject ?fb ?rks (forIn t) ?pre ([], [])"
  from h have r: "repr 0 ?n s obj t" and ns: "asString t = None" and w: "weight (forIn t) \<le> fuel"
    by simp_all
  have st: "stable ?n obj" using r by (rule repr_stable)
  have ag0: "\<forall>a<?n. ?s0 ! a = s ! a" by (simp add: nth_append)
  have keys: "forInKeys ?s0 obj = map fst (forIn t)"
    using forInKeys_agree [OF st le_refl _ ag0] repr_forInKeys [OF r ns] by simp
  have k: "\<forall>kv \<in> set (forIn t). repr 0 ?n ?s0 (getProp ?s0 obj (fst kv)) (snd kv)"
  proof
    fix kv assume "kv \<in> set (forIn t)"
    then have "(fst kv, snd kv) \<in> set (forIn t)" by simp
    from repr_getProp [OF r ns this] have r': "repr 0 ?n s (getProp s obj (fst kv)) (snd kv)" .
    from getProp_agree [OF st le_refl _ ag0]
    have g: "getProp ?s0 obj (fst kv) = getProp s obj (fst kv)" by simp
    from repr_transfer [OF r' le_refl le_refl, of ?s0] ag0
    show "repr 0 ?n ?s0 (getProp ?s0 obj (fst kv)) (snd kv)" unfolding g by simp
  qed
  have b0: "built ?s0 ?n (snd ([], []))" by (simp add: built_def)
  from processObject_store_refines [OF le_refl _ w st k b0, of ?fb ?rks ?pre]
  obtain s'' where run: "processObject_store fuel ?fb ?rks obj (map fst (forIn t)) ?pre ?n (?s0, [])
        = Some (s'', fst ?pure)"
    and b: "built s'' ?n (snd ?pure)" by auto
  from run keys have res: "toCSSVariables_store fuel obj options s
        = Some (s'', \<lparr>declarationMapS = declarationMap (toCSSVariables t options),
                      variablesS = HRef ?n, rawS = obj\<rparr>)"
    by (simp add: toCSSVariables_store_def toCSSVariables_fields)
  from toCSSVariables_store_frame [OF res] have tk: "take ?n s'' = s" by simp
  then have len: "?n \<le> length s''" by (metis length_take min.cobounded2 min.commute)
  from processObject_store_frame [OF run] have lt: "?n < length s''" by simp
  have same: "\<forall>a. 0 \<le> a \<and> a < ?n \<longrightarrow> s'' ! a = s ! a"
  proof (intro allI impI)
    fix a assume "0 \<le> a \<and> a < ?n"
    then have "a < ?n" by simp
    then have "take ?n s'' ! a = s'' ! a" by simp
    with tk show "s'' ! a = s ! a" by simp
  qed
  from repr_transfer [OF r le_refl le_refl len same] have keep: "repr 0 ?n s'' obj t" .
  have "list_all2 (\<lambda>hp kv. fst hp = fst kv \<and> repr 0 (length s'') s'' (snd hp) (snd kv))
          (s'' ! ?n) (snd ?pure)"
  proof (rule list_all2_mono)
    from b show "list_all2 (\<lambda>hp kv. fst hp = fst kv \<and> repr (Suc ?n) (length s'') s'' (snd hp) (snd kv))
          (s'' ! ?n) (snd ?pure)" by (simp add: built_def)
  next
    fix hp kv
    assume "fst hp = fst kv \<and> repr (Suc ?n) (length s'') s'' (snd hp) (snd kv)"
    with repr_transfer [of "Suc ?n" "length s''" s'' "snd hp" "snd kv" 0 "length s''" s'']
    show "fst hp = fst kv \<and> repr 0 (length s'') s'' (snd hp) (snd kv)" by simp
  qed
  with b lt have out: "repr 0 (length s'') s'' (HRef ?n) (variables (toCSSVariables t options))"
    by (simp add: toCSSVariables_fields repr_container isContainer_def built_def)
  from res tk keep out
  show "\<exists>s''. toCSSVariables_store fuel obj options s
                = Some (s'', \<lparr>declarationMapS = declarationMap (toCSSVariables t options),
                              variablesS = HRef (length s), rawS = obj\<rparr>)
             \<and> take (length s) s'' = s
             \<and> repr 0 (length s) s'' obj t
             \<and> repr 0 (length s'') s'' (HRef (length s)) (variables (toCSSVariables t options))"
    by blast
qed

theorem toCSSVariables_store_input_untouched_witness:
  "repr 0 2 [[(''a'', HRef 1), (''b'', HStr ''y'')], [(''DEFAULT'', HStr ''x'')]] (HRef 0)
     (Obj [(''a'', Obj [(''DEFAULT'', Str ''x'')]), (''b'', Str ''y'')])
   \<and> toCSSVariables_store 5 (HRef 0) None
        [[(''a'', HRef 1), (''b'', HStr ''y'')], [(''DEFAULT'', HStr ''x'')]]
      = Some ([[(''a'', HRef 1), (''b'', HStr ''y'')], [(''DEFAULT'', HStr ''x'')],
               [(''a'', HRef 3), (''b'', HStr ''var(--b)'')],
               [(''DEFAULT'', HStr ''var(--a-default)'')]],
              \<lparr>declarationMapS = [(''--a-default'', ''x''), (''--b'', ''y'')],
                 variablesS = HRef 2, rawS = HRef 0\<rparr>)
   \<and> take 2 [[(''a'', HRef 1), (''b'', HStr ''y'')], [(''DEFAULT'', HStr ''x'')],
              [(''a'', HRef 3), (''b'', HStr ''var(--b)'')],
              [(''DEFAULT'', HStr ''var(--a-default)'')]]
      = [[(''a'', HRef 1), (''b'', HStr ''y'')], [(''DEFAULT'', HStr ''x'')]]
   \<and> (\<exists>s''. toCSSVariables_store 5 (HRef 0) None
               [[(''a'', HRef 1), (''b'', HStr ''y'')], [(''DEFAULT'', HStr ''x'')]]
             = Some (s'', \<lparr>declarationMapS = [(''--a-default'', ''x''), (''--b'', ''y'')],
                           variablesS = HRef 2, rawS = HRef 0\<rparr>)
           \<and> take 2 s'' = [[(''a'', HRef 1), (''b'', HStr ''y'')], [(''DEFAULT'', HStr ''x'')]])"
proof -
  let ?s = "[[(''a'', HRef 1), (''b'', HStr ''y'')], [(''DEFAULT'', HStr ''x'')]]"
  let ?s' = "[[(''a'', HRef 1), (''b'', HStr ''y'')], [(''DEFAULT'', HStr ''x'')],
               [(''a'', HRef 3), (''b'', HStr ''var(--b)'')],
               [(''DEFAULT'', HStr ''var(--a-default)'')]]"
  let ?t = "Obj [(''a'', Obj [(''DEFAULT'', Str ''x'')]), (''b'', Str ''y'')]"
  let ?out = "\<lparr>declarationMapS = [(''--a-default'', ''x''), (''--b'', ''y'')],
                 variablesS = HRef 2, rawS = HRef 0\<rparr>"
  have r: "repr 0 2 ?s (HRef 0) ?t" by code_simp
  have run: "toCSSVariables_store 5 (HRef 0) None ?s = Some (?s', ?out)" by code_simp
  have w: "weight (forIn ?t) \<le> 5" by code_simp
  have d: "declarationMap (toCSSVariables ?t None) = [(''--a-default'', ''x''), (''--b'', ''y'')]"
    by code_simp
  note T = toCSSVariables_store_input_untouched [of 5 "HRef 0" None ?s ?s' ?out ?t]
  have l: "length ?s = 2" by simp
  from T run have "take (length ?s) ?s' = ?s" by blast
  then have a: "take 2 ?s' = ?s" unfolding l .
  have r': "repr 0 (length ?s) ?s (HRef 0) ?t" by code_simp
  have ns: "asString ?t = None" by simp
  from T r' ns w have "\<exists>s''. toCSSVariables_store 5 (HRef 0) None ?s
                = Some (s'', \<lparr>declarationMapS = declarationMap (toCSSVariables ?t None),
                              variablesS = HRef (length ?s), rawS = HRef 0\<rparr>)
             \<and> take (length ?s) s'' = ?s"
    by blast
  then have b: "\<exists>s''. toCSSVariables_store 5 (HRef 0) None ?s = Some (s'', ?out) \<and> take 2 s'' = ?s"
    unfolding d l .
  from r run a b show ?thesis by simp
qed

end
